theory Spec2Isabelle
  imports Main "HOL-Library.Sublist"
begin

section \<open>Data model\<close>

text \<open>
  One recognised entity of a turn: the dictionary with the keys \<^verbatim>\<open>entity\<close> and
  \<^verbatim>\<open>value\<close> that the dialogue host hands over. Strings are lists of 8-bit characters.
\<close>

datatype entity = Entity (key_of: string) (value_of: string)

text \<open>
  The values stored in \<^verbatim>\<open>current_group\<close>: the pair \<^verbatim>\<open>(entity_value, neg)\<close> for the keys
  \<^verbatim>\<open>passages\<close>, \<^verbatim>\<open>line\<close> and \<^verbatim>\<open>mark\<close>, the bare \<^verbatim>\<open>entity_value\<close> for every
  other key. The dictionary keeps insertion order (the code reads its last item), so it is
  an association list: assigning to a present key keeps its place, a new key goes last.
\<close>

datatype gval = Tup string bool | Plain string

type_synonym group = "(string \<times> gval) list"

definition dict_in :: "string \<Rightarrow> group \<Rightarrow> bool" where
  "dict_in k g = (k \<in> set (map fst g))"

fun dict_set :: "string \<Rightarrow> gval \<Rightarrow> group \<Rightarrow> group" where
  "dict_set k v [] = [(k, v)]"
| "dict_set k v (kv # g) = (if fst kv = k then (k, v) # g else kv # dict_set k v g)"

definition dict_del :: "string \<Rightarrow> group \<Rightarrow> group" where
  "dict_del k g = filter (\<lambda>kv. fst kv \<noteq> k) g"

text \<open>
  A threshold field holds the tuple \<^verbatim>\<open>(passages, neg_passages and neg_line)\<close>. Both
  components are Python values that may be \<^verbatim>\<open>None\<close>, so both are options here; the
  field itself is \<^verbatim>\<open>None\<close> when unset.
\<close>

type_synonym threshold = "int option \<times> bool option"

record fields_of_interest =
  gender :: "string option"
  bag :: "bool option"
  hat :: "bool option"
  line1_passages :: "threshold option"
  line2_passages :: "threshold option"
  line3_passages :: "threshold option"
  line4_passages :: "threshold option"

text \<open>
  The object \<^verbatim>\<open>TrackingPeople\<close>. The dispatcher is the list of the messages uttered so
  far, oldest first.
\<close>

record tracking_people =
  line_1 :: string
  line_2 :: string
  line_3 :: string
  line_4 :: string
  foi :: fields_of_interest
  nop :: nat
  dispatcher :: "string list"

text \<open>What \<^verbatim>\<open>__init__\<close> builds: every field of interest unset.\<close>

definition empty_foi :: fields_of_interest where
  "empty_foi = \<lparr>gender = None, bag = None, hat = None, line1_passages = None,
     line2_passages = None, line3_passages = None, line4_passages = None\<rparr>"

definition init :: "string \<Rightarrow> string \<Rightarrow> string \<Rightarrow> string \<Rightarrow> tracking_people" where
  "init l1 l2 l3 l4 = \<lparr>line_1 = l1, line_2 = l2, line_3 = l3, line_4 = l4,
     foi = empty_foi, nop = 0, dispatcher = []\<rparr>"

text \<open>The four identifiers the actions module configures.\<close>

definition LINE_1 :: string where "LINE_1 = ''alpha line''"
definition LINE_2 :: string where "LINE_2 = ''beta line''"
definition LINE_3 :: string where "LINE_3 = ''gamma line''"
definition LINE_4 :: string where "LINE_4 = ''delta line''"

definition pepper :: tracking_people where
  "pepper = init LINE_1 LINE_2 LINE_3 LINE_4"

section \<open>Strings\<close>

text \<open>\<^verbatim>\<open>str.lower\<close> on the ASCII letters.\<close>

definition lower_char :: "char \<Rightarrow> char" where
  "lower_char c =
     (case map_of (zip ''ABCDEFGHIJKLMNOPQRSTUVWXYZ'' ''abcdefghijklmnopqrstuvwxyz'') c of
        Some d \<Rightarrow> d
      | None \<Rightarrow> c)"

definition lower :: "string \<Rightarrow> string" where
  "lower s = map lower_char s"

text \<open>
  \<^verbatim>\<open>s.split(sep)[0]\<close> for a non-empty separator: the text before the first occurrence
  of \<open>sep\<close>, all of \<open>s\<close> when there is none.
\<close>

fun split_head :: "string \<Rightarrow> string \<Rightarrow> string" where
  "split_head sep [] = []"
| "split_head sep (c # cs) = (if prefix sep (c # cs) then [] else c # split_head sep cs)"

section \<open>Number normaliser\<close>

definition frequency_text :: "string \<Rightarrow> string" where
  "frequency_text adverb =
     ''My apologies! Please, provide a right frequency adverb in the format (once, twice, 'number' times). You provided me the following frequency adverb: ''
     @ adverb @ ''.''"

text \<open>
  \<^verbatim>\<open>Utils.adverb_to_number\<close>. The cardinal parser \<^verbatim>\<open>w2n.word_to_num\<close> belongs to a
  library outside the repository and is the parameter \<open>w2n\<close>. Of what the parser may do
  the model keeps the two outcomes that the function tells apart: an integer result
  (\<open>Some\<close>), and the \<^verbatim>\<open>ValueError\<close> that the \<^verbatim>\<open>except\<close> clause catches (\<open>None\<close>). The
  function catches nothing else, so a run in which the parser raises another exception
  leaves the function with that exception; such a run, and a result of the parser that
  is not an integer, are not values of this model, and no property below speaks of them.
  The function returns its result (\<open>None\<close> for Python's \<^verbatim>\<open>None\<close>) and the dispatcher with
  the message it uttered, if any.
\<close>

definition adverb_to_number ::
  "(string \<Rightarrow> int option) \<Rightarrow> string \<Rightarrow> string list \<Rightarrow> int option \<times> string list" where
  "adverb_to_number w2n adverb disp =
     (if adverb = ''once'' \<or> adverb = ''one time'' then (Some 1, disp)
      else if adverb = ''twice'' then (Some 2, disp)
      else if suffix '' times'' adverb then
        (case w2n (split_head '' times'' adverb) of
           Some n \<Rightarrow> (Some n, disp)
         | None \<Rightarrow> (None, disp @ [frequency_text adverb]))
      else (None, disp @ [frequency_text adverb]))"

section \<open>Entity interpreter, people domain\<close>

definition unknown_line_text :: "tracking_people \<Rightarrow> string \<Rightarrow> string" where
  "unknown_line_text self line =
     ''My apologies! I don't know if there is '' @ line
     @ '' in the shopping mall. I can only check the people passing through ''
     @ line_1 self @ '', '' @ line_2 self @ '', '' @ line_3 self @ '', and '' @ line_4 self @ ''.''"

definition no_line_text :: "tracking_people \<Rightarrow> string" where
  "no_line_text self =
     ''My apologies! Please point me somewhere to check. Remember, I can only check the people passing through ''
     @ line_1 self @ '', '' @ line_2 self @ '', '' @ line_3 self @ '', and '' @ line_4 self @ ''.''"

definition utter_message :: "string \<Rightarrow> tracking_people \<Rightarrow> tracking_people" where
  "utter_message text self = self\<lparr>dispatcher := dispatcher self @ [text]\<rparr>"

text \<open>
  What a flush returns: \<^verbatim>\<open>True\<close>, \<^verbatim>\<open>False\<close>, or \<open>IllTyped\<close> when the group holds a bare
  string under \<^verbatim>\<open>passages\<close>, \<^verbatim>\<open>line\<close> or \<^verbatim>\<open>mark\<close>, where the code indexes a pair.
  \<^verbatim>\<open>update\<close> never builds such a group (lemmas \<open>update_well_typed\<close> and
  \<open>groups_update_well_typed\<close> below).
\<close>

datatype ret = RTrue | RFalse | IllTyped

text \<open>Python's \<^verbatim>\<open>a and b\<close> for a Boolean \<open>a\<close>: \<open>b\<close> when \<open>a\<close> holds, else \<open>a\<close>.\<close>

definition py_and :: "bool \<Rightarrow> bool option \<Rightarrow> bool option" where
  "py_and a b = (if a then b else Some False)"

text \<open>
  The first two assignments of \<^verbatim>\<open>__update_line\<close>: the quantity with its polarity
  (default \<^verbatim>\<open>(1, True)\<close>), converted by the normaliser, and the line with its polarity
  (default \<^verbatim>\<open>(None, None)\<close>).
\<close>

definition group_passages ::
  "(string \<Rightarrow> int option) \<Rightarrow> group \<Rightarrow> string list \<Rightarrow> ((int option \<times> bool) \<times> string list) option" where
  "group_passages w2n current_group disp =
     (case map_of current_group ''passages'' of
        None \<Rightarrow> Some ((Some 1, True), disp)
      | Some (Tup a n) \<Rightarrow> (case adverb_to_number w2n a disp of (p, disp') \<Rightarrow> Some ((p, n), disp'))
      | Some (Plain s) \<Rightarrow> None)"

definition group_line :: "group \<Rightarrow> (string option \<times> bool option) option" where
  "group_line current_group =
     (case map_of current_group ''line'' of
        None \<Rightarrow> Some (None, None)
      | Some (Tup l n) \<Rightarrow> Some (Some l, Some n)
      | Some (Plain s) \<Rightarrow> None)"

text \<open>
  The chain of comparisons of \<^verbatim>\<open>__update_line\<close>: the lowered line name against the four
  identifiers in turn, the tuple stored in the field of the first that is equal, and the
  clarification message when none is.
\<close>

definition commit_line :: "tracking_people \<Rightarrow> string \<Rightarrow> threshold \<Rightarrow> ret \<times> tracking_people" where
  "commit_line self line t =
     (if lower line = line_1 self then
        (RTrue, self\<lparr>foi := (foi self)\<lparr>line1_passages := Some t\<rparr>\<rparr>)
      else if lower line = line_2 self then
        (RTrue, self\<lparr>foi := (foi self)\<lparr>line2_passages := Some t\<rparr>\<rparr>)
      else if lower line = line_3 self then
        (RTrue, self\<lparr>foi := (foi self)\<lparr>line3_passages := Some t\<rparr>\<rparr>)
      else if lower line = line_4 self then
        (RTrue, self\<lparr>foi := (foi self)\<lparr>line4_passages := Some t\<rparr>\<rparr>)
      else (RFalse, utter_message (unknown_line_text self line) self))"

definition update_line ::
  "(string \<Rightarrow> int option) \<Rightarrow> group \<Rightarrow> tracking_people \<Rightarrow> ret \<times> tracking_people" where
  "update_line w2n current_group self =
     (case group_passages w2n current_group (dispatcher self) of
        None \<Rightarrow> (IllTyped, self)
      | Some ((passages, neg_passages), disp) \<Rightarrow>
          (case group_line current_group of
             None \<Rightarrow> (IllTyped, self\<lparr>dispatcher := disp\<rparr>)
           | Some (line, neg_line) \<Rightarrow>
               if passages = None then (RFalse, self\<lparr>dispatcher := disp\<rparr>)
               else
                 (case line of
                    Some l \<Rightarrow>
                      commit_line (self\<lparr>dispatcher := disp\<rparr>) l
                        (passages, py_and neg_passages neg_line)
                  | None \<Rightarrow>
                      (RFalse, utter_message (no_line_text self) (self\<lparr>dispatcher := disp\<rparr>)))))"

definition update_clothing :: "group \<Rightarrow> string \<Rightarrow> tracking_people \<Rightarrow> tracking_people" where
  "update_clothing current_group entity_value self =
     (let neg = \<not> dict_in ''negation'' current_group in
      if entity_value = ''hat'' then self\<lparr>foi := (foi self)\<lparr>hat := Some neg\<rparr>\<rparr>
      else if entity_value = ''bag'' then self\<lparr>foi := (foi self)\<lparr>bag := Some neg\<rparr>\<rparr>
      else self)"

definition update_gender :: "group \<Rightarrow> string \<Rightarrow> tracking_people \<Rightarrow> tracking_people" where
  "update_gender current_group entity_value self =
     (let neg = \<not> dict_in ''negation'' current_group in
      self\<lparr>foi := (foi self)\<lparr>gender :=
        Some (if neg then entity_value
              else if entity_value = ''male'' \<and> \<not> neg then ''female''
              else ''male'')\<rparr>\<rparr>)"

text \<open>
  The loop of \<^verbatim>\<open>update\<close>. Its state is \<^verbatim>\<open>current_group\<close>, \<^verbatim>\<open>line_flag\<close> and the
  object; \<open>Inl\<close> is the early \<^verbatim>\<open>return False\<close> (with the object as it is then), \<open>Inr\<close>
  goes on. Every call site passes \<^verbatim>\<open>update=True\<close>.
\<close>

type_synonym loop_state = "group \<times> bool \<times> tracking_people"

definition flush ::
  "(string \<Rightarrow> int option) \<Rightarrow> group \<Rightarrow> tracking_people \<Rightarrow> (ret \<times> tracking_people) + tracking_people" where
  "flush w2n current_group self =
     (case update_line w2n current_group self of
        (RTrue, self') \<Rightarrow> Inr self'
      | (r, self') \<Rightarrow> Inl (r, self'))"

text \<open>
  The branch for the keys \<^verbatim>\<open>passages\<close> and \<^verbatim>\<open>line\<close>. A key already in the group
  closes the group; of the closed group only a negation that is its last item is kept.
  \<open>last\<close> is read only where the group holds \<open>entity_key\<close>, so it is not empty.
\<close>

definition line_entity ::
  "(string \<Rightarrow> int option) \<Rightarrow> string \<Rightarrow> string \<Rightarrow> loop_state \<Rightarrow> (ret \<times> tracking_people) + loop_state" where
  "line_entity w2n entity_key entity_value st =
     (case st of (current_group, line_flag, self) \<Rightarrow>
        (case (if line_flag \<and> dict_in entity_key current_group then
                 (case flush w2n current_group self of
                    Inl r \<Rightarrow> Inl r
                  | Inr self' \<Rightarrow>
                      Inr (if fst (last current_group) = ''negation'' then [last current_group] else [],
                           self'))
               else Inr (current_group, self)) of
           Inl r \<Rightarrow> Inl r
         | Inr (current_group, self) \<Rightarrow>
             (let neg = (if dict_in ''negation'' current_group then False else True);
                  current_group = (if \<not> neg then dict_del ''negation'' current_group
                                   else current_group)
              in Inr (dict_set entity_key (Tup entity_value neg) current_group, True, self))))"

text \<open>The branch for every other key.\<close>

definition other_entity ::
  "(string \<Rightarrow> int option) \<Rightarrow> string \<Rightarrow> string \<Rightarrow> loop_state \<Rightarrow> (ret \<times> tracking_people) + loop_state" where
  "other_entity w2n entity_key entity_value st =
     (case st of (current_group, line_flag, self) \<Rightarrow>
        if line_flag \<and> entity_key = ''negation'' then
          Inr (dict_set entity_key (Plain entity_value) current_group, line_flag, self)
        else
          (case (if line_flag \<and> entity_key \<noteq> ''negation'' then
                   (case flush w2n current_group self of
                      Inl r \<Rightarrow> Inl r
                    | Inr self' \<Rightarrow> Inr ([], self'))
                 else Inr (current_group, self)) of
             Inl r \<Rightarrow> Inl r
           | Inr (current_group, self) \<Rightarrow>
               Inr (dict_set entity_key (Plain entity_value) current_group, False, self)))"

text \<open>Eager completion: a group that holds both keys is flushed at once.\<close>

definition complete_group ::
  "(string \<Rightarrow> int option) \<Rightarrow> loop_state \<Rightarrow> (ret \<times> tracking_people) + loop_state" where
  "complete_group w2n st =
     (case st of (current_group, line_flag, self) \<Rightarrow>
        if dict_in ''passages'' current_group \<and> dict_in ''line'' current_group then
          (case flush w2n current_group self of
             Inl r \<Rightarrow> Inl r
           | Inr self' \<Rightarrow> Inr ([], False, self'))
        else Inr (current_group, line_flag, self))"

text \<open>
  Clothing and gender resolve outside a line group. \<^verbatim>\<open>"clothing" in entity_key\<close> is
  Python's substring test.
\<close>

definition resolve :: "string \<Rightarrow> string \<Rightarrow> loop_state \<Rightarrow> loop_state" where
  "resolve entity_key entity_value st =
     (case st of (current_group, line_flag, self) \<Rightarrow>
        if \<not> line_flag then
          if sublist ''clothing'' entity_key then
            ([], line_flag, update_clothing current_group entity_value self)
          else if sublist ''gender'' entity_key then
            ([], line_flag, update_gender current_group entity_value self)
          else (current_group, line_flag, self)
        else (current_group, line_flag, self))"

definition step ::
  "(string \<Rightarrow> int option) \<Rightarrow> entity \<Rightarrow> loop_state \<Rightarrow> (ret \<times> tracking_people) + loop_state" where
  "step w2n e st =
     (case (if key_of e \<in> {''passages'', ''line''} then line_entity w2n (key_of e) (value_of e) st
            else other_entity w2n (key_of e) (value_of e) st) of
        Inl r \<Rightarrow> Inl r
      | Inr st1 \<Rightarrow>
          (case complete_group w2n st1 of
             Inl r \<Rightarrow> Inl r
           | Inr st2 \<Rightarrow> Inr (resolve (key_of e) (value_of e) st2)))"

fun loop ::
  "(string \<Rightarrow> int option) \<Rightarrow> entity list \<Rightarrow> loop_state \<Rightarrow> (ret \<times> tracking_people) + loop_state" where
  "loop w2n [] st = Inr st"
| "loop w2n (e # es) st =
     (case step w2n e st of
        Inl r \<Rightarrow> Inl r
      | Inr st' \<Rightarrow> loop w2n es st')"

text \<open>
  After the loop: a group that is not empty is flushed, and \<^verbatim>\<open>update\<close> returns
  \<^verbatim>\<open>True\<close> unless a flush has returned \<^verbatim>\<open>False\<close>.
\<close>

definition finish ::
  "(string \<Rightarrow> int option) \<Rightarrow> (ret \<times> tracking_people) + loop_state \<Rightarrow> ret \<times> tracking_people" where
  "finish w2n res =
     (case res of
        Inl r \<Rightarrow> r
      | Inr (current_group, line_flag, self) \<Rightarrow>
          if current_group \<noteq> [] then
            (case flush w2n current_group self of
               Inl r \<Rightarrow> r
             | Inr self' \<Rightarrow> (RTrue, self'))
          else (RTrue, self))"

text \<open>\<^verbatim>\<open>TrackingPeople.update\<close>: the loop from the empty group, then the last flush.\<close>

definition update ::
  "(string \<Rightarrow> int option) \<Rightarrow> entity list \<Rightarrow> tracking_people \<Rightarrow> ret \<times> tracking_people" where
  "update w2n entities self = finish w2n (loop w2n entities ([], False, self))"

section \<open>Query evaluator, people domain\<close>

text \<open>
  A person record of the dataset, with the keys the filter reads. The dataset file is not
  part of the sources; the list \<^verbatim>\<open>data["people"]\<close> read from it is the parameter
  \<open>people\<close> of \<open>filteringJSON\<close>.
\<close>

record person =
  person_gender :: string
  person_bag :: bool
  person_hat :: bool
  trajectory :: "int list"

text \<open>The same record after the counting loop has stored the four derived keys in it.\<close>

record counted_person = person +
  line1_count :: int
  line2_count :: int
  line3_count :: int
  line4_count :: int

definition count_passages :: "person \<Rightarrow> counted_person" where
  "count_passages p = person.extend p
     (counted_person.fields
        (int (count_list (trajectory p) 1)) (int (count_list (trajectory p) 2))
        (int (count_list (trajectory p) 3)) (int (count_list (trajectory p) 4)))"

datatype py_error = TypeError

text \<open>
  The two dictionary comprehensions: the set fields among the first three, each as the
  test \<^verbatim>\<open>person[key] == value\<close>, and the set fields among the last four, each as the
  derived key it reads with its value.
\<close>

definition foi_gender_hat_bag :: "fields_of_interest \<Rightarrow> (person \<Rightarrow> bool) list" where
  "foi_gender_hat_bag f =
     (case gender f of None \<Rightarrow> [] | Some v \<Rightarrow> [\<lambda>p. person_gender p = v]) @
     (case bag f of None \<Rightarrow> [] | Some v \<Rightarrow> [\<lambda>p. person_bag p = v]) @
     (case hat f of None \<Rightarrow> [] | Some v \<Rightarrow> [\<lambda>p. person_hat p = v])"

definition foi_line :: "fields_of_interest \<Rightarrow> ((counted_person \<Rightarrow> int) \<times> threshold) list" where
  "foi_line f =
     (case line1_passages f of None \<Rightarrow> [] | Some v \<Rightarrow> [(line1_count, v)]) @
     (case line2_passages f of None \<Rightarrow> [] | Some v \<Rightarrow> [(line2_count, v)]) @
     (case line3_passages f of None \<Rightarrow> [] | Some v \<Rightarrow> [(line3_count, v)]) @
     (case line4_passages f of None \<Rightarrow> [] | Some v \<Rightarrow> [(line4_count, v)])"

text \<open>
  \<^verbatim>\<open>person[key] >= value[0] if value[1] else person[key] < value[0]\<close>: a direction that
  is \<^verbatim>\<open>None\<close> is falsy, and comparing a count with a bound that is \<^verbatim>\<open>None\<close> raises.
\<close>

definition line_test :: "int \<Rightarrow> threshold \<Rightarrow> py_error + bool" where
  "line_test n v =
     (case v of (bound, direction) \<Rightarrow>
        if direction = Some True then
          (case bound of None \<Rightarrow> Inl TypeError | Some b \<Rightarrow> Inr (n \<ge> b))
        else
          (case bound of None \<Rightarrow> Inl TypeError | Some b \<Rightarrow> Inr (n < b)))"

text \<open>\<^verbatim>\<open>all(...)\<close> over the set line fields, stopping at the first false test.\<close>

fun all_lines :: "counted_person \<Rightarrow> ((counted_person \<Rightarrow> int) \<times> threshold) list \<Rightarrow> py_error + bool" where
  "all_lines p [] = Inr True"
| "all_lines p (kv # kvs) =
     (case line_test (fst kv p) (snd kv) of
        Inl e \<Rightarrow> Inl e
      | Inr b \<Rightarrow> if b then all_lines p kvs else Inr False)"

fun filter_lines ::
  "counted_person list \<Rightarrow> ((counted_person \<Rightarrow> int) \<times> threshold) list \<Rightarrow> py_error + counted_person list" where
  "filter_lines [] kvs = Inr []"
| "filter_lines (p # doi) kvs =
     (case all_lines p kvs of
        Inl e \<Rightarrow> Inl e
      | Inr b \<Rightarrow>
          (case filter_lines doi kvs of
             Inl e \<Rightarrow> Inl e
           | Inr rest \<Rightarrow> Inr (if b then p # rest else rest)))"

definition filteringJSON ::
  "person list \<Rightarrow> tracking_people \<Rightarrow> (py_error + counted_person list) \<times> tracking_people" where
  "filteringJSON people self =
     (let doi = (if foi_gender_hat_bag (foi self) \<noteq> [] then
                   filter (\<lambda>p. list_all (\<lambda>t. t p) (foi_gender_hat_bag (foi self))) people
                 else people);
          doi = map count_passages doi
      in case (if foi_line (foi self) \<noteq> [] then filter_lines doi (foi_line (foi self))
               else Inr doi) of
           Inl e \<Rightarrow> (Inl e, self)
         | Inr doi \<Rightarrow> (Inr doi, self\<lparr>nop := length doi\<rparr>))"

section \<open>Entity interpreter, group domain\<close>

text \<open>
  \<^verbatim>\<open>Utils.word_to_number\<close> tries \<^verbatim>\<open>int\<close>, \<^verbatim>\<open>float\<close> and \<^verbatim>\<open>w2n.word_to_num\<close> in
  turn. None of the three is code of the repository: they are the fields of the parameter
  \<open>P\<close>, over any type \<open>'n\<close> of numbers, \<open>None\<close> being their \<^verbatim>\<open>ValueError\<close>.
\<close>

record 'n parsers =
  py_int :: "string \<Rightarrow> 'n option"
  py_float :: "string \<Rightarrow> 'n option"
  word_to_num :: "string \<Rightarrow> 'n option"

definition number_text :: "string \<Rightarrow> string" where
  "number_text word =
     ''My apologies! Please, provide a right number. You provided me: '' @ word @ ''.''"

definition word_to_number :: "'n parsers \<Rightarrow> string \<Rightarrow> string list \<Rightarrow> 'n option \<times> string list" where
  "word_to_number P word disp =
     (case py_int P word of
        Some n \<Rightarrow> (Some n, disp)
      | None \<Rightarrow>
          (case py_float P word of
             Some n \<Rightarrow> (Some n, disp)
           | None \<Rightarrow>
               (case word_to_num P word of
                  Some n \<Rightarrow> (Some n, disp)
                | None \<Rightarrow> (None, disp @ [number_text word]))))"

text \<open>The object \<^verbatim>\<open>TrackingGroups\<close>; its field map has the one key \<^verbatim>\<open>score\<close>.\<close>

record 'n tracking_groups =
  score :: "('n option \<times> bool option) option"
  groups_nop :: nat
  groups_dispatcher :: "string list"

definition group_mark ::
  "'n parsers \<Rightarrow> group \<Rightarrow> string list \<Rightarrow> (('n option \<times> bool option) \<times> string list) option" where
  "group_mark P current_group disp =
     (case map_of current_group ''mark'' of
        None \<Rightarrow> Some ((None, None), disp)
      | Some (Tup m n) \<Rightarrow> (case word_to_number P m disp of (x, disp') \<Rightarrow> Some ((x, Some n), disp'))
      | Some (Plain s) \<Rightarrow> None)"

definition update_score ::
  "'n parsers \<Rightarrow> group \<Rightarrow> 'n tracking_groups \<Rightarrow> ret \<times> 'n tracking_groups" where
  "update_score P current_group self =
     (case group_mark P current_group (groups_dispatcher self) of
        None \<Rightarrow> (IllTyped, self)
      | Some ((mark, neg_mark), disp) \<Rightarrow>
          if mark \<noteq> None then
            (RTrue, self\<lparr>groups_dispatcher := disp, score := Some (mark, neg_mark)\<rparr>)
          else (RFalse, self\<lparr>groups_dispatcher := disp\<rparr>))"

type_synonym 'n groups_state = "group \<times> bool \<times> 'n tracking_groups"

definition flush_score ::
  "'n parsers \<Rightarrow> group \<Rightarrow> 'n tracking_groups \<Rightarrow> (ret \<times> 'n tracking_groups) + 'n tracking_groups" where
  "flush_score P current_group self =
     (case update_score P current_group self of
        (RTrue, self') \<Rightarrow> Inr self'
      | (r, self') \<Rightarrow> Inl (r, self'))"

definition mark_entity ::
  "'n parsers \<Rightarrow> string \<Rightarrow> string \<Rightarrow> 'n groups_state \<Rightarrow> (ret \<times> 'n tracking_groups) + 'n groups_state" where
  "mark_entity P entity_key entity_value st =
     (case st of (current_group, score_flag, self) \<Rightarrow>
        (case (if score_flag \<and> dict_in entity_key current_group then
                 (case flush_score P current_group self of
                    Inl r \<Rightarrow> Inl r
                  | Inr self' \<Rightarrow>
                      Inr (if fst (last current_group) = ''negation'' then [last current_group] else [],
                           self'))
               else Inr (current_group, self)) of
           Inl r \<Rightarrow> Inl r
         | Inr (current_group, self) \<Rightarrow>
             (let neg = (if dict_in ''negation'' current_group then False else True);
                  current_group = (if \<not> neg then dict_del ''negation'' current_group
                                   else current_group)
              in Inr (dict_set entity_key (Tup entity_value neg) current_group, True, self))))"

definition groups_other_entity ::
  "'n parsers \<Rightarrow> string \<Rightarrow> string \<Rightarrow> 'n groups_state \<Rightarrow> (ret \<times> 'n tracking_groups) + 'n groups_state" where
  "groups_other_entity P entity_key entity_value st =
     (case st of (current_group, score_flag, self) \<Rightarrow>
        if score_flag \<and> entity_key = ''negation'' then
          Inr (dict_set entity_key (Plain entity_value) current_group, score_flag, self)
        else
          (case (if score_flag \<and> entity_key \<noteq> ''negation'' then
                   (case flush_score P current_group self of
                      Inl r \<Rightarrow> Inl r
                    | Inr self' \<Rightarrow> Inr ([], self'))
                 else Inr (current_group, self)) of
             Inl r \<Rightarrow> Inl r
           | Inr (current_group, self) \<Rightarrow>
               Inr (dict_set entity_key (Plain entity_value) current_group, False, self)))"

definition complete_mark ::
  "'n parsers \<Rightarrow> 'n groups_state \<Rightarrow> (ret \<times> 'n tracking_groups) + 'n groups_state" where
  "complete_mark P st =
     (case st of (current_group, score_flag, self) \<Rightarrow>
        if dict_in ''mark'' current_group then
          (case flush_score P current_group self of
             Inl r \<Rightarrow> Inl r
           | Inr self' \<Rightarrow> Inr ([], False, self'))
        else Inr (current_group, score_flag, self))"

definition groups_step ::
  "'n parsers \<Rightarrow> entity \<Rightarrow> 'n groups_state \<Rightarrow> (ret \<times> 'n tracking_groups) + 'n groups_state" where
  "groups_step P e st =
     (case (if key_of e \<in> {''mark''} then mark_entity P (key_of e) (value_of e) st
            else groups_other_entity P (key_of e) (value_of e) st) of
        Inl r \<Rightarrow> Inl r
      | Inr st1 \<Rightarrow> complete_mark P st1)"

fun groups_loop ::
  "'n parsers \<Rightarrow> entity list \<Rightarrow> 'n groups_state \<Rightarrow> (ret \<times> 'n tracking_groups) + 'n groups_state" where
  "groups_loop P [] st = Inr st"
| "groups_loop P (e # es) st =
     (case groups_step P e st of
        Inl r \<Rightarrow> Inl r
      | Inr st' \<Rightarrow> groups_loop P es st')"

definition groups_finish ::
  "'n parsers \<Rightarrow> (ret \<times> 'n tracking_groups) + 'n groups_state \<Rightarrow> ret \<times> 'n tracking_groups" where
  "groups_finish P res =
     (case res of
        Inl r \<Rightarrow> r
      | Inr (current_group, score_flag, self) \<Rightarrow>
          if current_group \<noteq> [] then
            (case flush_score P current_group self of
               Inl r \<Rightarrow> r
             | Inr self' \<Rightarrow> (RTrue, self'))
          else (RTrue, self))"

text \<open>\<^verbatim>\<open>TrackingGroups.update\<close>.\<close>

definition groups_update ::
  "'n parsers \<Rightarrow> entity list \<Rightarrow> 'n tracking_groups \<Rightarrow> ret \<times> 'n tracking_groups" where
  "groups_update P entities self = groups_finish P (groups_loop P entities ([], False, self))"

section \<open>Predicates of the properties\<close>

text \<open>
  A threshold field is complete when it is unset or a pair of a bound and a direction,
  neither of them \<^verbatim>\<open>None\<close>; a field map is well formed when its four line fields are.
\<close>

definition complete :: "('n option \<times> bool option) option \<Rightarrow> bool" where
  "complete t = (case t of None \<Rightarrow> True | Some (b, d) \<Rightarrow> b \<noteq> None \<and> d \<noteq> None)"

definition well_formed :: "fields_of_interest \<Rightarrow> bool" where
  "well_formed f = (complete (line1_passages f) \<and> complete (line2_passages f) \<and>
     complete (line3_passages f) \<and> complete (line4_passages f))"

text \<open>The object after the tuple \<open>t\<close> has been stored in one of its four line fields.\<close>

definition committed :: "threshold \<Rightarrow> tracking_people \<Rightarrow> tracking_people \<Rightarrow> bool" where
  "committed t s s' =
     (s' = s\<lparr>foi := (foi s)\<lparr>line1_passages := Some t\<rparr>\<rparr> \<or>
      s' = s\<lparr>foi := (foi s)\<lparr>line2_passages := Some t\<rparr>\<rparr> \<or>
      s' = s\<lparr>foi := (foi s)\<lparr>line3_passages := Some t\<rparr>\<rparr> \<or>
      s' = s\<lparr>foi := (foi s)\<lparr>line4_passages := Some t\<rparr>\<rparr>)"

text \<open>A group is typed for the keys \<open>K\<close> when it holds pairs under them.\<close>

definition typed :: "string set \<Rightarrow> group \<Rightarrow> bool" where
  "typed K g = (\<forall>kv \<in> set g. fst kv \<in> K \<longrightarrow> (\<exists>a n. snd kv = Tup a n))"

text \<open>
  The filter as the specification words it. A set threshold (bound, direction) asks for a
  count of at least the bound when the direction is true and below the bound when it is
  false; an unset field asks for nothing. A person matches a field map when it equals
  every set field among gender, bag and hat and its four crossing counts meet the four
  line fields.
\<close>

definition threshold_holds :: "int \<Rightarrow> threshold option \<Rightarrow> bool" where
  "threshold_holds n t =
     (case t of
        None \<Rightarrow> True
      | Some (bound, direction) \<Rightarrow>
          (case bound of
             None \<Rightarrow> False
           | Some b \<Rightarrow> if direction = Some True then n \<ge> b else n < b))"

definition matches :: "fields_of_interest \<Rightarrow> person \<Rightarrow> bool" where
  "matches f p =
     ((case gender f of None \<Rightarrow> True | Some v \<Rightarrow> person_gender p = v) \<and>
      (case bag f of None \<Rightarrow> True | Some v \<Rightarrow> person_bag p = v) \<and>
      (case hat f of None \<Rightarrow> True | Some v \<Rightarrow> person_hat p = v) \<and>
      threshold_holds (int (count_list (trajectory p) 1)) (line1_passages f) \<and>
      threshold_holds (int (count_list (trajectory p) 2)) (line2_passages f) \<and>
      threshold_holds (int (count_list (trajectory p) 3)) (line3_passages f) \<and>
      threshold_holds (int (count_list (trajectory p) 4)) (line4_passages f))"

text \<open>Three people of a dataset, for the examples of the filter.\<close>

definition ann :: person where
  "ann = \<lparr>person_gender = ''female'', person_bag = True, person_hat = False, trajectory = [1, 2, 1, 1]\<rparr>"

definition bob :: person where
  "bob = \<lparr>person_gender = ''male'', person_bag = False, person_hat = False, trajectory = [1, 1, 3]\<rparr>"

definition eve :: person where
  "eve = \<lparr>person_gender = ''female'', person_bag = False, person_hat = True, trajectory = [4, 1]\<rparr>"

text \<open>
  The invariant of the loop of \<^verbatim>\<open>update\<close>: the group holds pairs under \<^verbatim>\<open>passages\<close> and
  \<^verbatim>\<open>line\<close>, never both keys at once, and neither key while \<^verbatim>\<open>line_flag\<close> is down.
\<close>

definition loop_inv :: "loop_state \<Rightarrow> bool" where
  "loop_inv st =
     (case st of (current_group, line_flag, self) \<Rightarrow>
        typed {''passages'', ''line''} current_group \<and>
        \<not> (dict_in ''passages'' current_group \<and> dict_in ''line'' current_group) \<and>
        (\<not> line_flag \<longrightarrow>
           \<not> dict_in ''passages'' current_group \<and> \<not> dict_in ''line'' current_group))"

text \<open>A sequence of turns: each stream updates the object the turn before has left.\<close>

fun updates :: "(string \<Rightarrow> int option) \<Rightarrow> entity list list \<Rightarrow> tracking_people \<Rightarrow> tracking_people" where
  "updates w2n [] self = self"
| "updates w2n (es # ess) self = updates w2n ess (snd (update w2n es self))"

fun groups_updates :: "'n parsers \<Rightarrow> entity list list \<Rightarrow> 'n tracking_groups \<Rightarrow> 'n tracking_groups" where
  "groups_updates P [] self = self"
| "groups_updates P (es # ess) self = groups_updates P ess (snd (groups_update P es self))"

text \<open>Parsers of decimal digits up to nine and of nothing else, for the examples.\<close>

definition digit_parsers :: "int parsers" where
  "digit_parsers =
     \<lparr>py_int = map_of [(''0'', 0), (''1'', 1), (''2'', 2), (''3'', 3), (''4'', 4), (''5'', 5),
                       (''6'', 6), (''7'', 7), (''8'', 8), (''9'', 9)],
      py_float = (\<lambda>s. None),
      word_to_num = (\<lambda>s. None)\<rparr>"

definition no_score :: "int tracking_groups" where
  "no_score = \<lparr>score = None, groups_nop = 0, groups_dispatcher = []\<rparr>"




text \<open>
  The two outcomes of the parser that the model has: on the text it returns the integer
  \<open>k\<close>, or it raises the \<^verbatim>\<open>ValueError\<close> that \<^verbatim>\<open>adverb_to_number\<close> catches.
\<close>

definition returns_int :: "(string \<Rightarrow> int option) \<Rightarrow> string \<Rightarrow> int \<Rightarrow> bool" where
  "returns_int w2n text k = (w2n text = Some k)"

definition raises_ValueError :: "(string \<Rightarrow> int option) \<Rightarrow> string \<Rightarrow> bool" where
  "raises_ValueError w2n text = (w2n text = None)"

chapter \<open>Properties\<close>

section \<open>The flush\<close>

lemma adverb_to_number_cases:
  "adverb_to_number w2n a d = (p, d') \<Longrightarrow>
     (p \<noteq> None \<and> d' = d) \<or> (p = None \<and> d' = d @ [frequency_text a])"
  unfolding adverb_to_number_def
  by (cases p; cases "w2n (split_head '' times'' a)") (auto split: if_splits)

lemma group_passages_cases:
  assumes "group_passages w2n g d = Some ((p, n), d')"
  shows "(p \<noteq> None \<and> d' = d) \<or> (p = None \<and> (\<exists>m. d' = d @ [m]))"
proof (cases "map_of g ''passages''")
  case None
  with assms show ?thesis by (cases p) (auto simp: group_passages_def)
next
  case (Some v)
  show ?thesis
  proof (cases v)
    case (Tup a b)
    obtain q e where q: "adverb_to_number w2n a d = (q, e)" by (cases "adverb_to_number w2n a d")
    from assms Some Tup q have "p = q" "d' = e" by (simp_all add: group_passages_def)
    with adverb_to_number_cases [OF q] show ?thesis by auto
  next
    case (Plain s)
    with assms Some show ?thesis by (simp add: group_passages_def)
  qed
qed

lemma group_line_cases:
  "group_line g = Some (l, n) \<Longrightarrow> (l = None \<and> n = None) \<or> (\<exists>x b. l = Some x \<and> n = Some b)"
  by (auto simp: group_line_def split: option.splits gval.splits)

lemma commit_line_cases:
  assumes "commit_line s l t = (r, s')"
  shows "(r = RTrue \<and> committed t s s') \<or> (r = RFalse \<and> s' = utter_message (unknown_line_text s l) s)"
  using assms unfolding commit_line_def committed_def
  by (auto split: if_splits)

lemma complete_py_and: "complete (Some (Some n, py_and a (Some b)))"
  by (cases a) (auto simp: complete_def py_and_def)

lemma typed_map_of:
  "typed K g \<Longrightarrow> k \<in> K \<Longrightarrow> map_of g k = Some v \<Longrightarrow> \<exists>a n. v = Tup a n"
  by (auto simp: typed_def dest!: map_of_SomeD)

lemma update_line_cases:
  assumes "update_line w2n g s = (r, s')"
  shows "(r = RTrue \<and> (\<exists>t. complete (Some t) \<and> committed t s s'))
       \<or> (r = RFalse \<and> (\<exists>m. s' = utter_message m s))
       \<or> (r = IllTyped \<and> \<not> typed {''passages'', ''line''} g)"
proof (cases "group_passages w2n g (dispatcher s)")
  case None
  then have "\<exists>x. map_of g ''passages'' = Some (Plain x)"
    by (auto simp: group_passages_def split: option.splits gval.splits prod.splits)
  then have "\<not> typed {''passages'', ''line''} g" by (auto dest: typed_map_of [where k = "''passages''"])
  moreover from assms None have "r = IllTyped" by (simp add: update_line_def)
  ultimately show ?thesis by simp
next
  case (Some a)
  obtain p np d where a: "a = ((p, np), d)" by (cases a) auto
  note gp = group_passages_cases [OF Some [unfolded a]]
  show ?thesis
  proof (cases "group_line g")
    case None
    then have "\<exists>x. map_of g ''line'' = Some (Plain x)"
      by (auto simp: group_line_def split: option.splits gval.splits)
    then have "\<not> typed {''passages'', ''line''} g" by (auto dest: typed_map_of [where k = "''line''"])
    moreover from assms Some a None have "r = IllTyped" by (simp add: update_line_def)
    ultimately show ?thesis by simp
  next
    case gl: (Some b)
    obtain l nl where b: "b = (l, nl)" by (cases b)
    note glc = group_line_cases [OF gl [unfolded b]]
    show ?thesis
    proof (cases p)
      case None
      with gp obtain m where "d = dispatcher s @ [m]" by auto
      with assms Some a gl b None show ?thesis
        by (auto simp: update_line_def utter_message_def)
    next
      case (Some n)
      with gp have d: "d = dispatcher s" by auto
      show ?thesis
      proof (cases l)
        case None
        with assms \<open>group_passages w2n g (dispatcher s) = Some a\<close> a gl b Some d show ?thesis
          by (auto simp: update_line_def utter_message_def)
      next
        case sl: (Some x)
        with glc obtain bb where nl: "nl = Some bb" by auto
        from assms \<open>group_passages w2n g (dispatcher s) = Some a\<close> a gl b Some d sl
        have "commit_line s x (Some n, py_and np nl) = (r, s')"
          by (simp add: update_line_def)
        from commit_line_cases [OF this] nl complete_py_and [of n np bb] show ?thesis
          by blast
      qed
    qed
  qed
qed

section \<open>Evaluating streams\<close>

lemmas loop_defs = update_def finish_def step_def line_entity_def other_entity_def
  complete_group_def resolve_def flush_def dict_in_def dict_del_def

lemmas flush_defs = update_line_def commit_line_def group_passages_def group_line_def
  adverb_to_number_def py_and_def update_clothing_def update_gender_def utter_message_def

lemmas string_tests = sublist_code prefix_code suffix_to_prefix

lemma group_line_map_of: "map_of g = map_of g' \<Longrightarrow> group_line g = group_line g'"
  by (simp add: group_line_def)

lemma group_passages_map_of:
  "map_of g = map_of g' \<Longrightarrow> group_passages w2n g d = group_passages w2n g' d"
  by (simp add: group_passages_def)

lemma update_line_map_of:
  assumes "map_of g = map_of g'"
  shows "update_line w2n g self = update_line w2n g' self"
  unfolding update_line_def group_line_map_of [OF assms] group_passages_map_of [OF assms] ..

lemma update_line_pair:
  "update_line w2n [(''passages'', Tup a m), (''line'', Tup v n)] self =
   update_line w2n [(''line'', Tup v n), (''passages'', Tup a m)] self"
  by (rule update_line_map_of) (simp add: fun_eq_iff)

lemma update_pair_commute:
  "update w2n [Entity ''passages'' a, Entity ''line'' v] self =
   update w2n [Entity ''line'' v, Entity ''passages'' a] self"
proof -
  obtain r s' where u: "update_line w2n [(''line'', Tup v True), (''passages'', Tup a True)] self = (r, s')"
    by (cases "update_line w2n [(''line'', Tup v True), (''passages'', Tup a True)] self")
  show ?thesis
    by (cases r) (simp_all add: loop_defs string_tests update_line_pair u)
qed

section \<open>Claims about the interpreter on single clauses\<close>

text \<open>
  C1. A quantity entity and a line entity form the same group in either order: the two
  streams give the same result of \<^verbatim>\<open>update\<close>, whatever the quantity text, the line
  name and the object. With \<^verbatim>\<open>alpha line\<close> as first identifier, the streams
  [passages twice, line alpha line] and [line alpha line, passages twice] both return
  \<^verbatim>\<open>True\<close> and store (2, True) in the field of the first line, uttering nothing.
\<close>

theorem line_group_order_independent:
  "update w2n [Entity ''passages'' a, Entity ''line'' v] self =
     update w2n [Entity ''line'' v, Entity ''passages'' a] self
   \<and> (line_1 self = ''alpha line'' \<longrightarrow>
        update w2n [Entity ''passages'' ''twice'', Entity ''line'' ''alpha line''] self =
          (RTrue, self\<lparr>foi := (foi self)\<lparr>line1_passages := Some (Some 2, Some True)\<rparr>\<rparr>)
      \<and> update w2n [Entity ''line'' ''alpha line'', Entity ''passages'' ''twice''] self =
          (RTrue, self\<lparr>foi := (foi self)\<lparr>line1_passages := Some (Some 2, Some True)\<rparr>\<rparr>))"
proof -
  have "update w2n [Entity ''passages'' ''twice'', Entity ''line'' ''alpha line''] self =
          (RTrue, self\<lparr>foi := (foi self)\<lparr>line1_passages := Some (Some 2, Some True)\<rparr>\<rparr>)"
    if "line_1 self = ''alpha line''"
    using that by (simp add: loop_defs flush_defs string_tests lower_def lower_char_def)
  then show ?thesis
    using update_pair_commute [of w2n a v self]
      update_pair_commute [of w2n "''twice''" "''alpha line''" self]
    by simp
qed

theorem line_group_order_independent_witness:
  "line_1 pepper = ''alpha line''
   \<and> update (\<lambda>_. None) [Entity ''passages'' ''twice'', Entity ''line'' ''alpha line''] pepper =
       (RTrue, pepper\<lparr>foi := (foi pepper)\<lparr>line1_passages := Some (Some 2, Some True)\<rparr>\<rparr>)
   \<and> update (\<lambda>_. None) [Entity ''line'' ''alpha line'', Entity ''passages'' ''twice''] pepper =
       (RTrue, pepper\<lparr>foi := (foi pepper)\<lparr>line1_passages := Some (Some 2, Some True)\<rparr>\<rparr>)"
proof -
  have h: "line_1 pepper = ''alpha line''" by (simp add: pepper_def init_def LINE_1_def)
  show ?thesis
    using h line_group_order_independent [of "\<lambda>_. None" "''twice''" "''alpha line''" pepper]
    by simp
qed

text \<open>
  C5. The claim is that a stream without \<^verbatim>\<open>passages\<close> and \<^verbatim>\<open>line\<close> entities makes
  \<^verbatim>\<open>update\<close> return \<^verbatim>\<open>True\<close> without a message, also when it ends with a negation
  that nothing consumed. On the stream of one negation the code does otherwise: the group
  still holds the negation after the loop, so the last flush runs, finds no line, utters
  the request to name a line and returns \<^verbatim>\<open>False\<close>. The fields are left as they were.
\<close>

theorem trailing_negation_fails:
  "update w2n [Entity ''negation'' x] self = (RFalse, utter_message (no_line_text self) self)"
  by (simp add: loop_defs flush_defs string_tests)

text \<open>
  C7. A group flushed with a line and no quantity stores the quantity 1 with the
  polarity of the line entity in the field of that line; the stream of the single entity
  [line v], where \<open>v\<close> lowered is the second identifier and not the first, returns
  \<^verbatim>\<open>True\<close> and stores (1, True) in the field of the second line.
\<close>

theorem default_quantity:
  "(map_of g ''passages'' = None \<longrightarrow> map_of g ''line'' = Some (Tup v n) \<longrightarrow>
      update_line w2n g self = commit_line self v (Some 1, Some n))
   \<and> (lower v = line_2 self \<longrightarrow> lower v \<noteq> line_1 self \<longrightarrow>
        update w2n [Entity ''line'' v] self =
          (RTrue, self\<lparr>foi := (foi self)\<lparr>line2_passages := Some (Some 1, Some True)\<rparr>\<rparr>))"
  by (simp add: loop_defs flush_defs string_tests)

theorem default_quantity_witness:
  "lower ''beta line'' = line_2 pepper \<and> lower ''beta line'' \<noteq> line_1 pepper
   \<and> update (\<lambda>_. None) [Entity ''line'' ''beta line''] pepper =
       (RTrue, pepper\<lparr>foi := (foi pepper)\<lparr>line2_passages := Some (Some 1, Some True)\<rparr>\<rparr>)
   \<and> update_line (\<lambda>_. None) [(''line'', Tup ''beta line'' True)] pepper =
       commit_line pepper ''beta line'' (Some 1, Some True)"
proof -
  have h: "lower ''beta line'' = line_2 pepper" "lower ''beta line'' \<noteq> line_1 pepper"
    by (simp_all add: pepper_def init_def LINE_1_def LINE_2_def lower_def lower_char_def)
  show ?thesis
    using h default_quantity [of "[(''line'', Tup ''beta line'' True)]" "''beta line''" True "\<lambda>_. None" pepper]
    by simp
qed

text \<open>
  C8. \<^verbatim>\<open>__update_gender\<close> stores the entity value as it is when the group holds no
  negation; when it holds one, a value \<^verbatim>\<open>male\<close> stores \<^verbatim>\<open>female\<close> and a value
  \<^verbatim>\<open>female\<close> stores \<^verbatim>\<open>male\<close>. The same on whole streams: [gender v], and a negation
  followed by a gender entity.
\<close>

theorem gender_resolve:
  "(\<not> dict_in ''negation'' g \<longrightarrow> gender (foi (update_gender g v self)) = Some v)
   \<and> (dict_in ''negation'' g \<longrightarrow>
        gender (foi (update_gender g ''male'' self)) = Some ''female''
      \<and> gender (foi (update_gender g ''female'' self)) = Some ''male'')
   \<and> update w2n [Entity ''gender'' v] self = (RTrue, self\<lparr>foi := (foi self)\<lparr>gender := Some v\<rparr>\<rparr>)
   \<and> update w2n [Entity ''negation'' x, Entity ''gender'' ''male''] self =
       (RTrue, self\<lparr>foi := (foi self)\<lparr>gender := Some ''female''\<rparr>\<rparr>)
   \<and> update w2n [Entity ''negation'' x, Entity ''gender'' ''female''] self =
       (RTrue, self\<lparr>foi := (foi self)\<lparr>gender := Some ''male''\<rparr>\<rparr>)"
  by (simp add: loop_defs flush_defs string_tests)

theorem gender_resolve_witness:
  "\<not> dict_in ''negation'' [] \<and> dict_in ''negation'' [(''negation'', Plain ''not'')]
   \<and> gender (foi (update_gender [] ''female'' pepper)) = Some ''female''
   \<and> gender (foi (update_gender [(''negation'', Plain ''not'')] ''male'' pepper)) = Some ''female''
   \<and> gender (foi (update_gender [(''negation'', Plain ''not'')] ''female'' pepper)) = Some ''male''"
proof -
  have h: "\<not> dict_in ''negation'' []" "dict_in ''negation'' [(''negation'', Plain ''not'')]"
    by (simp_all add: dict_in_def)
  show ?thesis
    using h gender_resolve [of "[]" "''female''" pepper]
      gender_resolve [of "[(''negation'', Plain ''not'')]" "''female''" pepper]
    by simp
qed

text \<open>
  C10. Under a negation every gender value other than \<^verbatim>\<open>male\<close> stores the literal
  \<^verbatim>\<open>male\<close>, whether it is \<^verbatim>\<open>female\<close> or a value outside the two; \<^verbatim>\<open>female\<close> is stored
  for the negated \<^verbatim>\<open>male\<close> only.
\<close>

theorem negated_gender_defaults_to_male:
  "(dict_in ''negation'' g \<longrightarrow> v \<noteq> ''male'' \<longrightarrow>
      gender (foi (update_gender g v self)) = Some ''male'')
   \<and> (dict_in ''negation'' g \<longrightarrow>
        (gender (foi (update_gender g v self)) = Some ''female'') = (v = ''male''))
   \<and> update w2n [Entity ''negation'' x, Entity ''gender'' v] self =
       (RTrue, self\<lparr>foi := (foi self)\<lparr>gender := Some (if v = ''male'' then ''female'' else ''male'')\<rparr>\<rparr>)"
  by (simp add: loop_defs flush_defs string_tests)

theorem negated_gender_defaults_to_male_witness:
  "dict_in ''negation'' [(''negation'', Plain ''not'')] \<and> ''other'' \<noteq> ''male''
   \<and> gender (foi (update_gender [(''negation'', Plain ''not'')] ''other'' pepper)) = Some ''male''
   \<and> update (\<lambda>_. None) [Entity ''negation'' ''not'', Entity ''gender'' ''other''] pepper =
       (RTrue, pepper\<lparr>foi := (foi pepper)\<lparr>gender := Some ''male''\<rparr>\<rparr>)"
proof -
  have h: "dict_in ''negation'' [(''negation'', Plain ''not'')]" "''other'' \<noteq> ''male''"
    by (simp_all add: dict_in_def)
  show ?thesis
    using h negated_gender_defaults_to_male [of "[(''negation'', Plain ''not'')]" "''other''" pepper "\<lambda>_. None" "''not''"]
    by simp
qed

section \<open>The adverb shapes\<close>

lemma split_head_no_sublist:
  "\<not> sublist sep s \<Longrightarrow> split_head sep s = s"
  by (induction s) (auto simp: sublist_Cons_right)

lemma prefix_times_overlap:
  assumes "prefix '' times'' (n @ '' times'')" "n \<noteq> []"
  shows "prefix '' times'' n"
proof (rule ccontr)
  assume np: "\<not> prefix '' times'' n"
  with assms(1) obtain us where us: "'' times'' = n @ us" "prefix us '' times''"
    by (auto simp: prefix_append)
  from us(1) np have "us \<noteq> []" by auto
  with us(2) obtain vs where vs: "us = CHR '' '' # vs" by (cases us) auto
  from assms(2) obtain c m where n: "n = c # m" by (cases n) auto
  have "CHR '' '' \<notin> set (tl '' times'')" by simp
  moreover have "CHR '' '' \<in> set (tl '' times'')"
  proof -
    have "CHR '' '' \<in> set (m @ us)" by (simp add: vs)
    moreover have "tl (n @ us) = m @ us" by (simp add: n)
    ultimately show ?thesis by (simp only: us(1))
  qed
  ultimately show False by blast
qed

lemma split_head_times:
  "\<not> sublist '' times'' n \<Longrightarrow> split_head '' times'' (n @ '' times'') = n"
proof (induction n)
  case Nil
  show ?case by (simp add: prefix_code)
next
  case (Cons c n)
  from Cons.prems have a: "\<not> prefix '' times'' (c # n)" and b: "\<not> sublist '' times'' n"
    by (auto simp: sublist_Cons_right)
  from a prefix_times_overlap [of "c # n"] have "\<not> prefix '' times'' (c # n @ '' times'')"
    by auto
  with Cons.IH [OF b] show ?case by simp
qed

lemma frequency_text_echo: "sublist a (frequency_text a)"
  unfolding frequency_text_def by (rule sublist_appendI)

lemma shapes_distinct:
  "n @ '' times'' \<noteq> ''once''" "n @ '' times'' \<noteq> ''one time''" "n @ '' times'' \<noteq> ''twice''"
  by (auto simp: append_eq_Cons_conv)


text \<open>
  C6, as the code has it. \<^verbatim>\<open>adverb_to_number\<close> returns 1 for \<^verbatim>\<open>once\<close> and also for
  \<^verbatim>\<open>one time\<close>, and 2 for \<^verbatim>\<open>twice\<close>, uttering nothing. An input ending in
  \<^verbatim>\<open> times\<close> is handed to \<^verbatim>\<open>word_to_num\<close> up to its first \<^verbatim>\<open> times\<close>, which is all of
  the text \<open>n\<close> before the ending when \<open>n\<close> holds no \<^verbatim>\<open> times\<close> itself: when
  \<^verbatim>\<open>word_to_num\<close> returns an integer the function returns it, uttering nothing, and when
  \<^verbatim>\<open>word_to_num\<close> raises \<^verbatim>\<open>ValueError\<close> the function fails. Every input that is none of
  the three literals and does not end in \<^verbatim>\<open> times\<close> fails. A failure returns \<^verbatim>\<open>None\<close>
  after exactly one message, which contains the input. Nothing is stated of a run in
  which \<^verbatim>\<open>word_to_num\<close> raises another exception or returns no integer.
\<close>

theorem adverb_to_number_shapes:
  "adverb_to_number w2n ''once'' d = (Some 1, d)
   \<and> adverb_to_number w2n ''one time'' d = (Some 1, d)
   \<and> adverb_to_number w2n ''twice'' d = (Some 2, d)
   \<and> (suffix '' times'' a \<longrightarrow> returns_int w2n (split_head '' times'' a) k \<longrightarrow>
        adverb_to_number w2n a d = (Some k, d))
   \<and> (suffix '' times'' a \<longrightarrow> raises_ValueError w2n (split_head '' times'' a) \<longrightarrow>
        adverb_to_number w2n a d = (None, d @ [frequency_text a]))
   \<and> (\<not> sublist '' times'' n \<longrightarrow> returns_int w2n n k \<longrightarrow>
        adverb_to_number w2n (n @ '' times'') d = (Some k, d))
   \<and> (\<not> sublist '' times'' n \<longrightarrow> raises_ValueError w2n n \<longrightarrow>
        adverb_to_number w2n (n @ '' times'') d = (None, d @ [frequency_text (n @ '' times'')]))
   \<and> (a \<notin> {''once'', ''one time'', ''twice''} \<longrightarrow> \<not> suffix '' times'' a \<longrightarrow>
        adverb_to_number w2n a d = (None, d @ [frequency_text a]))
   \<and> sublist a (frequency_text a)"
proof -
  have 1: "adverb_to_number w2n ''once'' d = (Some 1, d)"
    and 2: "adverb_to_number w2n ''one time'' d = (Some 1, d)"
    and 3: "adverb_to_number w2n ''twice'' d = (Some 2, d)"
    by (simp_all add: adverb_to_number_def)
  have c: "adverb_to_number w2n a d =
          (case w2n (split_head '' times'' a) of
             Some k \<Rightarrow> (Some k, d)
           | None \<Rightarrow> (None, d @ [frequency_text a]))" if "suffix '' times'' a" for a
  proof -
    from that have "a \<noteq> ''once''" "a \<noteq> ''one time''" "a \<noteq> ''twice''"
      by (auto simp: suffix_to_prefix prefix_code)
    with that show ?thesis by (simp add: adverb_to_number_def)
  qed
  have 4: "adverb_to_number w2n a d = (Some k, d)"
    if "suffix '' times'' a" "returns_int w2n (split_head '' times'' a) k" for a
    using c [OF that(1)] that(2) by (simp add: returns_int_def)
  have 5: "adverb_to_number w2n a d = (None, d @ [frequency_text a])"
    if "suffix '' times'' a" "raises_ValueError w2n (split_head '' times'' a)" for a
    using c [OF that(1)] that(2) by (simp add: raises_ValueError_def)
  have s: "suffix '' times'' (n @ '' times'')" by (simp add: suffix_def)
  have 6: "adverb_to_number w2n (n @ '' times'') d = (Some k, d)"
    if "\<not> sublist '' times'' n" "returns_int w2n n k"
    using 4 [OF s] split_head_times [OF that(1)] that(2) by simp
  have 7: "adverb_to_number w2n (n @ '' times'') d = (None, d @ [frequency_text (n @ '' times'')])"
    if "\<not> sublist '' times'' n" "raises_ValueError w2n n"
    using 5 [OF s] split_head_times [OF that(1)] that(2) by simp
  have 8: "adverb_to_number w2n a d = (None, d @ [frequency_text a])"
    if "a \<notin> {''once'', ''one time'', ''twice''}" "\<not> suffix '' times'' a"
    using that by (simp add: adverb_to_number_def)
  show ?thesis
    by (intro conjI impI)
      (fact 1, fact 2, fact 3, erule (1) 4, erule (1) 5, erule (1) 6, erule (1) 7, erule (1) 8,
       rule frequency_text_echo)
qed

theorem adverb_to_number_shapes_witness:
  "suffix '' times'' ''3 times times''
   \<and> returns_int (\<lambda>s. if s = ''3'' then Some 3 else None) (split_head '' times'' ''3 times times'') 3
   \<and> adverb_to_number (\<lambda>s. if s = ''3'' then Some 3 else None) ''3 times times'' [] = (Some 3, [])
   \<and> suffix '' times'' ''a few times''
   \<and> raises_ValueError (\<lambda>s. if s = ''3'' then Some 3 else None) (split_head '' times'' ''a few times'')
   \<and> adverb_to_number (\<lambda>s. if s = ''3'' then Some 3 else None) ''a few times'' [] =
       (None, [frequency_text ''a few times''])
   \<and> \<not> sublist '' times'' ''3''
   \<and> returns_int (\<lambda>s. if s = ''3'' then Some 3 else None) ''3'' 3
   \<and> adverb_to_number (\<lambda>s. if s = ''3'' then Some 3 else None) (''3'' @ '' times'') [] = (Some 3, [])
   \<and> \<not> sublist '' times'' ''many''
   \<and> raises_ValueError (\<lambda>s. if s = ''3'' then Some 3 else None) ''many''
   \<and> adverb_to_number (\<lambda>s. if s = ''3'' then Some 3 else None) (''many'' @ '' times'') [] =
       (None, [frequency_text (''many'' @ '' times'')])
   \<and> ''often'' \<notin> {''once'', ''one time'', ''twice''} \<and> \<not> suffix '' times'' ''often''
   \<and> adverb_to_number (\<lambda>s. if s = ''3'' then Some 3 else None) ''often'' [] =
       (None, [frequency_text ''often''])"
proof -
  let ?w = "\<lambda>s. if s = ''3'' then Some (3::int) else None"
  have h1: "suffix '' times'' ''3 times times''"
    and h2: "returns_int ?w (split_head '' times'' ''3 times times'') 3"
    and h3: "suffix '' times'' ''a few times''"
    and h4: "raises_ValueError ?w (split_head '' times'' ''a few times'')"
    and h5: "\<not> sublist '' times'' ''3''" and h6: "returns_int ?w ''3'' 3"
    and h7: "\<not> sublist '' times'' ''many''" and h8: "raises_ValueError ?w ''many''"
    and h9: "''often'' \<notin> {''once'', ''one time'', ''twice''}" and h10: "\<not> suffix '' times'' ''often''"
    by (simp_all add: returns_int_def raises_ValueError_def sublist_code prefix_code
        suffix_to_prefix)
  note t1 = adverb_to_number_shapes [where w2n = ?w and d = "[]" and a = "''3 times times''"
      and k = 3 and n = "''3''"]
  note t2 = adverb_to_number_shapes [where w2n = ?w and d = "[]" and a = "''a few times''"
      and k = 3 and n = "''many''"]
  note t3 = adverb_to_number_shapes [where w2n = ?w and d = "[]" and a = "''often''"
      and k = 3 and n = "''many''"]
  note c4 = t1 [THEN conjunct2, THEN conjunct2, THEN conjunct2, THEN conjunct1,
      THEN mp, OF h1, THEN mp, OF h2]
  note c5 = t2 [THEN conjunct2, THEN conjunct2, THEN conjunct2, THEN conjunct2, THEN conjunct1,
      THEN mp, OF h3, THEN mp, OF h4]
  note c6 = t1 [THEN conjunct2, THEN conjunct2, THEN conjunct2, THEN conjunct2, THEN conjunct2,
      THEN conjunct1, THEN mp, OF h5, THEN mp, OF h6]
  note c7 = t2 [THEN conjunct2, THEN conjunct2, THEN conjunct2, THEN conjunct2, THEN conjunct2,
      THEN conjunct2, THEN conjunct1, THEN mp, OF h7, THEN mp, OF h8]
  note c8 = t3 [THEN conjunct2, THEN conjunct2, THEN conjunct2, THEN conjunct2, THEN conjunct2,
      THEN conjunct2, THEN conjunct2, THEN conjunct1, THEN mp, OF h9, THEN mp, OF h10]
  have e: "[] @ [x] = [x]" for x :: string by simp
  from h1 h2 c4 h3 h4 c5 [unfolded e] h5 h6 c6 h7 h8 c7 [unfolded e] h9 h10 c8 [unfolded e]
  show ?thesis by (intro conjI)
qed

text \<open>
  C6 as claimed says that every input other than \<^verbatim>\<open>once\<close>, \<^verbatim>\<open>twice\<close> and the shape
  ending in \<^verbatim>\<open> times\<close> fails with a message. The input \<^verbatim>\<open>one time\<close> is none of these
  and returns 1 without a message.
\<close>

theorem one_time_counterexample:
  "''one time'' \<noteq> ''once'' \<and> ''one time'' \<noteq> ''twice'' \<and> \<not> suffix '' times'' ''one time''
   \<and> adverb_to_number (\<lambda>_. None) ''one time'' [] = (Some 1, [])"
  by (simp add: adverb_to_number_def suffix_to_prefix prefix_code)

section \<open>The filter\<close>

lemma gender_hat_bag_all:
  "list_all (\<lambda>t. t p) (foi_gender_hat_bag f) =
     ((case gender f of None \<Rightarrow> True | Some v \<Rightarrow> person_gender p = v) \<and>
      (case bag f of None \<Rightarrow> True | Some v \<Rightarrow> person_bag p = v) \<and>
      (case hat f of None \<Rightarrow> True | Some v \<Rightarrow> person_hat p = v))"
  by (simp add: foi_gender_hat_bag_def split: option.splits)

lemma guarded_filter:
  "(if ts \<noteq> [] then filter (\<lambda>p. list_all (\<lambda>t. t p) ts) xs else xs) =
     filter (\<lambda>p. list_all (\<lambda>t. t p) ts) xs"
  by simp

lemma line_test_complete:
  "complete (Some t) \<Longrightarrow> line_test n t = Inr (threshold_holds n (Some t))"
  by (cases t) (auto simp: complete_def line_test_def threshold_holds_def)

lemma all_lines_complete:
  "\<forall>kv \<in> set kvs. complete (Some (snd kv)) \<Longrightarrow>
     all_lines p kvs = Inr (list_all (\<lambda>kv. threshold_holds (fst kv p) (Some (snd kv))) kvs)"
  by (induction kvs) (simp_all add: line_test_complete)

lemma filter_lines_filter:
  "\<forall>p \<in> set doi. all_lines p kvs = Inr (P p) \<Longrightarrow> filter_lines doi kvs = Inr (filter P doi)"
  by (induction doi) simp_all

lemma foi_line_complete:
  "well_formed f \<Longrightarrow> \<forall>kv \<in> set (foi_line f). complete (Some (snd kv))"
  by (auto simp: well_formed_def foi_line_def split: option.splits)

lemma foi_line_all:
  "list_all (\<lambda>kv. threshold_holds (fst kv p) (Some (snd kv))) (foi_line f) =
     (threshold_holds (line1_count p) (line1_passages f) \<and>
      threshold_holds (line2_count p) (line2_passages f) \<and>
      threshold_holds (line3_count p) (line3_passages f) \<and>
      threshold_holds (line4_count p) (line4_passages f))"
  by (simp add: foi_line_def threshold_holds_def split: option.splits)

lemma counts_of_count_passages:
  "line1_count (count_passages p) = int (count_list (trajectory p) 1)"
  "line2_count (count_passages p) = int (count_list (trajectory p) 2)"
  "line3_count (count_passages p) = int (count_list (trajectory p) 3)"
  "line4_count (count_passages p) = int (count_list (trajectory p) 4)"
  by (simp_all add: count_passages_def person.defs counted_person.defs)

lemma filter_lines_guarded:
  assumes "well_formed f"
  shows "(if foi_line f \<noteq> [] then filter_lines doi (foi_line f) else Inr doi) =
     Inr (filter (\<lambda>p. list_all (\<lambda>kv. threshold_holds (fst kv p) (Some (snd kv))) (foi_line f)) doi)"
proof (cases "foi_line f = []")
  case True
  then show ?thesis by simp
next
  case False
  have "filter_lines doi (foi_line f) =
     Inr (filter (\<lambda>p. list_all (\<lambda>kv. threshold_holds (fst kv p) (Some (snd kv))) (foi_line f)) doi)"
    by (rule filter_lines_filter) (simp add: all_lines_complete [OF foi_line_complete [OF assms]])
  with False show ?thesis by simp
qed

lemma filteringJSON_matches:
  assumes "well_formed (foi self)"
  shows "filteringJSON people self =
     (Inr (map count_passages (filter (matches (foi self)) people)),
      self\<lparr>nop := length (filter (matches (foi self)) people)\<rparr>)"
proof -
  have eq: "(list_all (\<lambda>t. t p) (foi_gender_hat_bag (foi self)) \<and>
      list_all (\<lambda>kv. threshold_holds (fst kv (count_passages p)) (Some (snd kv))) (foi_line (foi self)))
     = matches (foi self) p" for p
    by (simp add: gender_hat_bag_all foi_line_all counts_of_count_passages matches_def)
  have "filter (\<lambda>p. list_all (\<lambda>kv. threshold_holds (fst kv p) (Some (snd kv))) (foi_line (foi self)))
          (map count_passages (filter (\<lambda>p. list_all (\<lambda>t. t p) (foi_gender_hat_bag (foi self))) people))
        = map count_passages (filter (matches (foi self)) people)"
    by (simp add: filter_map o_def eq)
  then show ?thesis
    unfolding filteringJSON_def Let_def guarded_filter filter_lines_guarded [OF assms]
    by simp
qed

lemma complete_simps:
  "complete None" "complete (Some (Some n, Some d))"
  by (auto simp: complete_def)

text \<open>
  C3. For every dataset and every well-formed field map, \<^verbatim>\<open>filteringJSON\<close> returns, in
  dataset order and with their four crossing counts added, exactly the people that equal
  every set field among gender, bag and hat and whose count for every set line field
  (bound, direction) is at least the bound when the direction is true and below it when
  the direction is false; it stores their number in \<^verbatim>\<open>nop\<close>. With no field set it
  returns the whole dataset. A person with three occurrences of line 1 is kept under
  (2, True) and dropped under (2, False).
\<close>

theorem filteringJSON_characterised:
  "(well_formed (foi self) \<longrightarrow>
      filteringJSON people self =
        (Inr (map count_passages (filter (matches (foi self)) people)),
         self\<lparr>nop := length (filter (matches (foi self)) people)\<rparr>))
   \<and> (foi self = empty_foi \<longrightarrow>
        filteringJSON people self = (Inr (map count_passages people), self\<lparr>nop := length people\<rparr>))
   \<and> (count_list (trajectory p) 1 = 3 \<longrightarrow>
        fst (filteringJSON [p] (self\<lparr>foi := empty_foi\<lparr>line1_passages := Some (Some 2, Some True)\<rparr>\<rparr>))
          = Inr [count_passages p]
      \<and> fst (filteringJSON [p] (self\<lparr>foi := empty_foi\<lparr>line1_passages := Some (Some 2, Some False)\<rparr>\<rparr>))
          = Inr [])"
proof (intro conjI impI)
  assume "well_formed (foi self)"
  then show "filteringJSON people self =
        (Inr (map count_passages (filter (matches (foi self)) people)),
         self\<lparr>nop := length (filter (matches (foi self)) people)\<rparr>)"
    by (rule filteringJSON_matches)
next
  assume e: "foi self = empty_foi"
  then have "well_formed (foi self)" by (simp add: well_formed_def complete_simps empty_foi_def)
  moreover from e have "matches (foi self) = (\<lambda>p. True)"
    by (simp add: matches_def threshold_holds_def empty_foi_def fun_eq_iff)
  ultimately show "filteringJSON people self = (Inr (map count_passages people), self\<lparr>nop := length people\<rparr>)"
    by (simp add: filteringJSON_matches)
next
  assume c: "count_list (trajectory p) 1 = 3"
  let ?s = "self\<lparr>foi := empty_foi\<lparr>line1_passages := Some (Some 2, Some True)\<rparr>\<rparr>"
  have "well_formed (foi ?s)" by (simp add: well_formed_def complete_simps empty_foi_def)
  moreover from c have "matches (foi ?s) p"
    by (simp add: matches_def threshold_holds_def empty_foi_def)
  ultimately show "fst (filteringJSON [p] ?s) = Inr [count_passages p]"
    by (simp add: filteringJSON_matches)
next
  assume c: "count_list (trajectory p) 1 = 3"
  let ?s = "self\<lparr>foi := empty_foi\<lparr>line1_passages := Some (Some 2, Some False)\<rparr>\<rparr>"
  have "well_formed (foi ?s)" by (simp add: well_formed_def complete_simps empty_foi_def)
  moreover from c have "\<not> matches (foi ?s) p"
    by (simp add: matches_def threshold_holds_def empty_foi_def)
  ultimately show "fst (filteringJSON [p] ?s) = Inr []"
    by (simp add: filteringJSON_matches)
qed

theorem filteringJSON_characterised_witness:
  "well_formed (empty_foi\<lparr>gender := Some ''female'', line1_passages := Some (Some 2, Some True)\<rparr>)
   \<and> filteringJSON [ann, bob, eve]
        (pepper\<lparr>foi := empty_foi\<lparr>gender := Some ''female'', line1_passages := Some (Some 2, Some True)\<rparr>\<rparr>)
      = (Inr [count_passages ann],
         pepper\<lparr>foi := empty_foi\<lparr>gender := Some ''female'', line1_passages := Some (Some 2, Some True)\<rparr>,
                nop := 1\<rparr>)
   \<and> filteringJSON [ann, bob, eve] pepper
      = (Inr [count_passages ann, count_passages bob, count_passages eve], pepper\<lparr>nop := 3\<rparr>)
   \<and> count_list (trajectory ann) 1 = 3
   \<and> fst (filteringJSON [ann] (pepper\<lparr>foi := empty_foi\<lparr>line1_passages := Some (Some 2, Some True)\<rparr>\<rparr>))
        = Inr [count_passages ann]
   \<and> fst (filteringJSON [ann] (pepper\<lparr>foi := empty_foi\<lparr>line1_passages := Some (Some 2, Some False)\<rparr>\<rparr>))
        = Inr []"
proof -
  let ?f = "empty_foi\<lparr>gender := Some ''female'', line1_passages := Some (Some 2, Some True)\<rparr>"
  have w: "well_formed ?f" by (simp add: well_formed_def complete_simps empty_foi_def)
  have e: "foi pepper = empty_foi" by (simp add: pepper_def init_def)
  have c: "count_list (trajectory ann) 1 = 3" by (simp add: ann_def)
  have m: "filter (matches ?f) [ann, bob, eve] = [ann]"
    by (simp add: matches_def threshold_holds_def empty_foi_def ann_def bob_def eve_def)
  show ?thesis
    using w e c m
      filteringJSON_characterised [of "pepper\<lparr>foi := ?f\<rparr>" "[ann, bob, eve]" ann]
      filteringJSON_characterised [of pepper "[ann, bob, eve]" ann]
    by simp
qed

section \<open>The group dictionary\<close>

lemma dict_in_set [simp]: "dict_in k (dict_set k' v g) = (k = k' \<or> dict_in k g)"
  by (induction g) (auto simp: dict_in_def)

lemma dict_in_del [simp]: "dict_in k (dict_del k' g) = (k \<noteq> k' \<and> dict_in k g)"
  by (auto simp: dict_in_def dict_del_def)

lemma dict_in_Nil [simp]: "\<not> dict_in k []"
  by (simp add: dict_in_def)

lemma dict_in_Cons [simp]: "dict_in k (kv # g) = (k = fst kv \<or> dict_in k g)"
  by (auto simp: dict_in_def)

lemma map_of_dict_set [simp]:
  "map_of (dict_set k v g) k' = (if k' = k then Some v else map_of g k')"
  by (induction g) auto

lemma map_of_dict_del [simp]:
  "map_of (dict_del k g) k' = (if k' = k then None else map_of g k')"
  by (induction g) (auto simp: dict_del_def)


lemma typed_Nil [simp]: "typed K []"
  by (simp add: typed_def)

lemma typed_dict_set:
  "typed K g \<Longrightarrow> (k \<in> K \<Longrightarrow> \<exists>a n. v = Tup a n) \<Longrightarrow> typed K (dict_set k v g)"
  by (induction g) (auto simp: typed_def)

lemma typed_dict_del: "typed K g \<Longrightarrow> typed K (dict_del k g)"
  by (auto simp: typed_def dict_del_def)

lemma dict_del_absent: "\<not> dict_in k g \<Longrightarrow> dict_del k g = g"
  by (induction g) (auto simp: dict_del_def dict_in_def)

text \<open>What the first branch keeps of a closed group, with the negation taken out again.\<close>

lemma kept_negation_deleted [simp]:
  "dict_del ''negation'' (if fst (last g) = ''negation'' then [last g] else []) = []"
  by (simp add: dict_del_def)

section \<open>Flush outcomes\<close>

lemma flush_Inr: "flush w2n g s = Inr s' \<Longrightarrow> update_line w2n g s = (RTrue, s')"
  by (auto simp: flush_def split: prod.splits ret.splits)

lemma flush_Inl: "flush w2n g s = Inl (r, s') \<Longrightarrow> update_line w2n g s = (r, s') \<and> r \<noteq> RTrue"
  by (auto simp: flush_def split: prod.splits ret.splits)

lemma flush_ok:
  "flush w2n g s = Inr s' \<Longrightarrow> \<exists>t. complete (Some t) \<and> committed t s s'"
  using update_line_cases [of w2n g s RTrue s'] by (auto dest!: flush_Inr)

lemma flush_fail:
  "typed {''passages'', ''line''} g \<Longrightarrow> flush w2n g s = Inl (r, s') \<Longrightarrow>
     r = RFalse \<and> (\<exists>m. s' = utter_message m s)"
  using update_line_cases [of w2n g s r s'] by (auto dest!: flush_Inl)

section \<open>One step of the loop\<close>

lemma line_entity_Inl:
  "line_entity w2n k v (cg, lf, s) = Inl r \<Longrightarrow> lf \<and> dict_in k cg \<and> flush w2n cg s = Inl r"
  by (auto simp: line_entity_def Let_def split: if_splits sum.splits)

lemma dict_del_single [simp]: "dict_del k [kv] = (if fst kv = k then [] else [kv])"
  by (simp add: dict_del_def)

lemma line_entity_Inr:
  assumes "line_entity w2n k v (cg, lf, s) = Inr (cg', lf', s')" "k \<noteq> ''negation''"
  shows "lf' \<and> \<not> dict_in ''negation'' cg'
     \<and> ((lf \<and> dict_in k cg \<and> flush w2n cg s = Inr s' \<and> (\<exists>n. cg' = [(k, Tup v n)]))
        \<or> (\<not> (lf \<and> dict_in k cg) \<and> s' = s
            \<and> cg' = dict_set k (Tup v (\<not> dict_in ''negation'' cg)) (dict_del ''negation'' cg)))"
  using assms
  by (auto simp: line_entity_def Let_def dict_del_absent split: if_splits sum.splits)

lemma other_entity_Inl:
  "other_entity w2n k v (cg, lf, s) = Inl r \<Longrightarrow> lf \<and> k \<noteq> ''negation'' \<and> flush w2n cg s = Inl r"
  by (auto simp: other_entity_def split: if_splits sum.splits)

lemma other_entity_Inr:
  assumes "other_entity w2n k v (cg, lf, s) = Inr (cg', lf', s')"
  shows "(lf \<and> k = ''negation'' \<and> cg' = dict_set k (Plain v) cg \<and> lf' \<and> s' = s)
     \<or> (lf \<and> k \<noteq> ''negation'' \<and> flush w2n cg s = Inr s' \<and> cg' = [(k, Plain v)] \<and> \<not> lf')
     \<or> (\<not> lf \<and> cg' = dict_set k (Plain v) cg \<and> \<not> lf' \<and> s' = s)"
  using assms by (auto simp: other_entity_def split: if_splits sum.splits)

lemma complete_group_Inl:
  "complete_group w2n (cg, lf, s) = Inl r \<Longrightarrow>
     dict_in ''passages'' cg \<and> dict_in ''line'' cg \<and> flush w2n cg s = Inl r"
  by (auto simp: complete_group_def split: if_splits sum.splits)

lemma complete_group_Inr:
  assumes "complete_group w2n (cg, lf, s) = Inr (cg', lf', s')"
  shows "(\<not> (dict_in ''passages'' cg \<and> dict_in ''line'' cg) \<and> cg' = cg \<and> lf' = lf \<and> s' = s)
     \<or> (dict_in ''passages'' cg \<and> dict_in ''line'' cg \<and> flush w2n cg s = Inr s' \<and> cg' = [] \<and> \<not> lf')"
  using assms by (auto simp: complete_group_def split: if_splits sum.splits)

lemma resolve_cases:
  assumes "resolve k v (cg, lf, s) = (cg', lf', s')"
  shows "lf' = lf \<and>
     ((cg' = cg \<and> s' = s \<and> (lf \<or> (\<not> sublist ''clothing'' k \<and> \<not> sublist ''gender'' k)))
      \<or> (\<not> lf \<and> sublist ''clothing'' k \<and> cg' = [] \<and> s' = update_clothing cg v s)
      \<or> (\<not> lf \<and> \<not> sublist ''clothing'' k \<and> sublist ''gender'' k \<and> cg' = [] \<and> s' = update_gender cg v s))"
  using assms by (auto simp: resolve_def split: if_splits)

lemma resolve_line_key:
  "k \<in> {''passages'', ''line''} \<Longrightarrow> resolve k v st = st"
  by (cases st) (auto simp: resolve_def sublist_code prefix_code)

text \<open>The two shapes of a step, by the branch the entity takes.\<close>

lemma step_line:
  "k \<in> {''passages'', ''line''} \<Longrightarrow>
     step w2n (Entity k v) st =
       (case line_entity w2n k v st of Inl r \<Rightarrow> Inl r | Inr st1 \<Rightarrow> complete_group w2n st1)"
  by (auto simp: step_def resolve_line_key split: sum.splits)

lemma step_other:
  "k \<notin> {''passages'', ''line''} \<Longrightarrow>
     step w2n (Entity k v) st =
       (case other_entity w2n k v st of
          Inl r \<Rightarrow> Inl r
        | Inr st1 \<Rightarrow>
            (case complete_group w2n st1 of Inl r \<Rightarrow> Inl r | Inr st2 \<Rightarrow> Inr (resolve k v st2)))"
  by (auto simp: step_def split: sum.splits)


lemma step_Inl:
  assumes "loop_inv (cg, lf, s)" "step w2n (Entity k v) (cg, lf, s) = Inl r"
  shows "lf \<and> (flush w2n cg s = Inl r
      \<or> (k \<in> {''passages'', ''line''} \<and> \<not> dict_in k cg
          \<and> flush w2n (dict_set k (Tup v (\<not> dict_in ''negation'' cg)) (dict_del ''negation'' cg)) s = Inl r))"
proof (cases "k \<in> {''passages'', ''line''}")
  case True
  show ?thesis
  proof (cases "line_entity w2n k v (cg, lf, s)")
    case (Inl a)
    with assms(2) True have "a = r" by (simp add: step_line)
    with Inl line_entity_Inl [of w2n k v cg lf s r] show ?thesis by simp
  next
    case (Inr st1)
    obtain cg1 lf1 s1 where st1: "st1 = (cg1, lf1, s1)" by (cases st1)
    from True have kn: "k \<noteq> ''negation''" by auto
    from assms(2) True Inr st1 have c: "complete_group w2n (cg1, lf1, s1) = Inl r"
      by (simp add: step_line)
    from complete_group_Inl [OF c]
    have b1: "dict_in ''passages'' cg1" and b2: "dict_in ''line'' cg1"
      and b3: "flush w2n cg1 s1 = Inl r" by simp_all
    from line_entity_Inr [OF Inr [unfolded st1] kn]
    consider n where "cg1 = [(k, Tup v n)]"
      | "\<not> (lf \<and> dict_in k cg)" "s1 = s"
        "cg1 = dict_set k (Tup v (\<not> dict_in ''negation'' cg)) (dict_del ''negation'' cg)"
      by blast
    then show ?thesis
    proof cases
      case 1
      with b1 b2 have "k = ''passages''" "k = ''line''" by simp_all
      then show ?thesis by simp
    next
      case 2
      have "lf"
      proof (rule ccontr)
        assume "\<not> lf"
        with assms(1) have "\<not> dict_in ''passages'' cg" "\<not> dict_in ''line'' cg"
          by (simp_all add: loop_inv_def)
        with b1 b2 2(3) have "k = ''passages''" "k = ''line''" by simp_all
        then show False by simp
      qed
      with 2 b3 True show ?thesis by simp
    qed
  qed
next
  case False
  show ?thesis
  proof (cases "other_entity w2n k v (cg, lf, s)")
    case (Inl a)
    with assms(2) False have "a = r" by (simp add: step_other)
    with Inl other_entity_Inl [of w2n k v cg lf s r] show ?thesis by simp
  next
    case (Inr st1)
    obtain cg1 lf1 s1 where st1: "st1 = (cg1, lf1, s1)" by (cases st1)
    from assms(2) False Inr st1 have "\<exists>r'. complete_group w2n (cg1, lf1, s1) = Inl r'"
      by (auto simp: step_other split: sum.splits)
    then obtain r' where c: "complete_group w2n (cg1, lf1, s1) = Inl r'" ..
    from complete_group_Inl [OF c]
    have b1: "dict_in ''passages'' cg1" and b2: "dict_in ''line'' cg1" by simp_all
    from other_entity_Inr [OF Inr [unfolded st1]]
    consider "cg1 = dict_set k (Plain v) cg" | "cg1 = [(k, Plain v)]" by blast
    then have False
    proof cases
      case 1
      with b1 b2 False have "dict_in ''passages'' cg \<and> dict_in ''line'' cg" by auto
      with assms(1) show False by (simp add: loop_inv_def)
    next
      case 2
      with b1 b2 have "k = ''passages''" "k = ''line''" by simp_all
      then show False by simp
    qed
    then show ?thesis ..
  qed
qed

lemma typed_single: "(k \<in> K \<Longrightarrow> \<exists>a n. x = Tup a n) \<Longrightarrow> typed K [(k, x)]"
  by (auto simp: typed_def)

lemma line_entity_Inr_typed:
  assumes "line_entity w2n k v (cg, lf, s) = Inr (cg1, lf1, s1)" "k \<noteq> ''negation''"
    "typed K cg"
  shows "typed K cg1"
proof -
  from line_entity_Inr [OF assms(1,2)]
  consider n where "cg1 = [(k, Tup v n)]"
    | "cg1 = dict_set k (Tup v (\<not> dict_in ''negation'' cg)) (dict_del ''negation'' cg)"
    by blast
  then show ?thesis
  proof cases
    case 1
    then show ?thesis by (simp add: typed_single)
  next
    case 2
    then show ?thesis by (simp add: typed_dict_set typed_dict_del assms(3))
  qed
qed

lemma other_entity_Inr_inv:
  assumes "other_entity w2n k v (cg, lf, s) = Inr (cg1, lf1, s1)" "k \<notin> {''passages'', ''line''}"
    "loop_inv (cg, lf, s)"
  shows "loop_inv (cg1, lf1, s1)"
proof -
  from other_entity_Inr [OF assms(1)]
  consider "cg1 = dict_set k (Plain v) cg" "lf1 = lf" | "cg1 = [(k, Plain v)]" "\<not> lf1"
    by blast
  then show ?thesis
  proof cases
    case 1
    with assms(2,3) show ?thesis by (auto simp: loop_inv_def intro: typed_dict_set)
  next
    case 2
    with assms(2) show ?thesis by (auto simp: loop_inv_def intro: typed_single)
  qed
qed

lemma complete_group_Inr_inv:
  assumes "complete_group w2n (cg, lf, s) = Inr (cg', lf', s')"
    "typed {''passages'', ''line''} cg"
    "\<not> lf \<longrightarrow> \<not> dict_in ''passages'' cg \<and> \<not> dict_in ''line'' cg"
  shows "loop_inv (cg', lf', s')"
proof -
  from complete_group_Inr [OF assms(1)]
  consider "\<not> (dict_in ''passages'' cg \<and> dict_in ''line'' cg)" "cg' = cg" "lf' = lf"
    | "cg' = []" "\<not> lf'"
    by blast
  then show ?thesis
  proof cases
    case 1
    with assms(2,3) show ?thesis by (simp add: loop_inv_def)
  next
    case 2
    then show ?thesis by (simp add: loop_inv_def)
  qed
qed

lemma resolve_inv:
  assumes "loop_inv st"
  shows "loop_inv (resolve k v st)"
proof -
  obtain cg lf s where st: "st = (cg, lf, s)" by (cases st)
  obtain cg' lf' s' where r: "resolve k v (cg, lf, s) = (cg', lf', s')" by (cases "resolve k v (cg, lf, s)")
  from resolve_cases [OF r] have "lf' = lf \<and> (cg' = cg \<or> cg' = [])" by blast
  with assms show ?thesis by (auto simp: st r loop_inv_def)
qed

lemma step_Inr_inv:
  assumes "loop_inv (cg, lf, s)" "step w2n (Entity k v) (cg, lf, s) = Inr st'"
  shows "loop_inv st'"
proof (cases "k \<in> {''passages'', ''line''}")
  case True
  then have kn: "k \<noteq> ''negation''" by auto
  from assms(2) True obtain st1 where le: "line_entity w2n k v (cg, lf, s) = Inr st1"
    and c: "complete_group w2n st1 = Inr st'"
    by (auto simp: step_line split: sum.splits)
  obtain cg1 lf1 s1 where st1: "st1 = (cg1, lf1, s1)" by (cases st1)
  obtain cg' lf' s' where st': "st' = (cg', lf', s')" by (cases st')
  from assms(1) have "typed {''passages'', ''line''} cg" by (simp add: loop_inv_def)
  then have t: "typed {''passages'', ''line''} cg1"
    by (rule line_entity_Inr_typed [OF le [unfolded st1] kn])
  from line_entity_Inr [OF le [unfolded st1] kn] have l: "lf1" by blast
  from complete_group_Inr_inv [OF c [unfolded st1 st'] t] l show ?thesis by (simp add: st')
next
  case False
  from assms(2) False obtain st1 st2 where oe: "other_entity w2n k v (cg, lf, s) = Inr st1"
    and c: "complete_group w2n st1 = Inr st2" and r: "st' = resolve k v st2"
    by (auto simp: step_other split: sum.splits)
  obtain cg1 lf1 s1 where st1: "st1 = (cg1, lf1, s1)" by (cases st1)
  obtain cg2 lf2 s2 where st2: "st2 = (cg2, lf2, s2)" by (cases st2)
  from other_entity_Inr_inv [OF oe [unfolded st1] False assms(1)]
  have i1: "loop_inv (cg1, lf1, s1)" .
  then have "loop_inv (cg2, lf2, s2)"
    using complete_group_Inr_inv [OF c [unfolded st1 st2]] by (simp add: loop_inv_def)
  then show ?thesis unfolding r st2 by (rule resolve_inv)
qed

section \<open>The loop\<close>

lemma step_Inr_rel:
  assumes st: "step w2n (Entity k v) (cg, lf, s) = Inr (cg', lf', s')"
    and refl: "\<And>a. Q a a" and trans: "\<And>a b c. Q a b \<Longrightarrow> Q b c \<Longrightarrow> Q a c"
    and fl: "\<And>g a b. flush w2n g a = Inr b \<Longrightarrow> Q a b"
    and cl: "\<And>g x a. Q a (update_clothing g x a)"
    and ge: "\<And>g x a. Q a (update_gender g x a)"
  shows "Q s s'"
proof (cases "k \<in> {''passages'', ''line''}")
  case True
  then have kn: "k \<noteq> ''negation''" by auto
  from st True obtain st1 where le: "line_entity w2n k v (cg, lf, s) = Inr st1"
    and c: "complete_group w2n st1 = Inr (cg', lf', s')"
    by (auto simp: step_line split: sum.splits)
  obtain cg1 lf1 s1 where st1: "st1 = (cg1, lf1, s1)" by (cases st1)
  from line_entity_Inr [OF le [unfolded st1] kn] have "s1 = s \<or> flush w2n cg s = Inr s1" by blast
  then have 1: "Q s s1" using refl fl by blast
  from complete_group_Inr [OF c [unfolded st1]] have "s' = s1 \<or> flush w2n cg1 s1 = Inr s'" by blast
  then have "Q s1 s'" using refl fl by blast
  with 1 show ?thesis by (rule trans)
next
  case False
  from st False obtain st1 st2 where oe: "other_entity w2n k v (cg, lf, s) = Inr st1"
    and c: "complete_group w2n st1 = Inr st2" and r: "resolve k v st2 = (cg', lf', s')"
    by (auto simp: step_other split: sum.splits)
  obtain cg1 lf1 s1 where st1: "st1 = (cg1, lf1, s1)" by (cases st1)
  obtain cg2 lf2 s2 where st2: "st2 = (cg2, lf2, s2)" by (cases st2)
  from other_entity_Inr [OF oe [unfolded st1]] have "s1 = s \<or> flush w2n cg s = Inr s1" by blast
  then have 1: "Q s s1" using refl fl by blast
  from complete_group_Inr [OF c [unfolded st1 st2]] have "s2 = s1 \<or> flush w2n cg1 s1 = Inr s2" by blast
  then have 2: "Q s1 s2" using refl fl by blast
  from resolve_cases [OF r [unfolded st2]]
  have "s' = s2 \<or> s' = update_clothing cg2 v s2 \<or> s' = update_gender cg2 v s2" by blast
  then have "Q s2 s'" using refl cl ge by blast
  with 1 2 show ?thesis by (blast intro: trans)
qed

lemma loop_Inr_rel:
  assumes "loop w2n es (cg, lf, s) = Inr (cg', lf', s')"
    and refl: "\<And>a. Q a a" and trans: "\<And>a b c. Q a b \<Longrightarrow> Q b c \<Longrightarrow> Q a c"
    and fl: "\<And>g a b. flush w2n g a = Inr b \<Longrightarrow> Q a b"
    and cl: "\<And>g x a. Q a (update_clothing g x a)"
    and ge: "\<And>g x a. Q a (update_gender g x a)"
  shows "Q s s'"
  using assms(1)
proof (induction es arbitrary: cg lf s)
  case Nil
  then show ?case by (simp add: refl)
next
  case (Cons e es)
  obtain k v where e: "e = Entity k v" by (cases e)
  from Cons.prems obtain st1 where 1: "step w2n (Entity k v) (cg, lf, s) = Inr st1"
    and 2: "loop w2n es st1 = Inr (cg', lf', s')"
    by (auto simp: e split: sum.splits)
  obtain cg1 lf1 s1 where st1: "st1 = (cg1, lf1, s1)" by (cases st1)
  have "Q s s1"
  proof (rule step_Inr_rel [of w2n k v cg lf s cg1 lf1 s1 Q])
    show "step w2n (Entity k v) (cg, lf, s) = Inr (cg1, lf1, s1)" using 1 st1 by simp
  qed (rule refl, erule trans, assumption, erule fl, rule cl, rule ge)
  moreover from Cons.IH [OF 2 [unfolded st1]] have "Q s1 s'" .
  ultimately show ?case by (rule trans)
qed

lemma loop_append:
  "loop w2n (xs @ ys) st = (case loop w2n xs st of Inl r \<Rightarrow> Inl r | Inr st' \<Rightarrow> loop w2n ys st')"
  by (induction xs arbitrary: st) (auto split: sum.splits)

lemma loop_Inr_inv:
  "loop_inv st \<Longrightarrow> loop w2n es st = Inr st' \<Longrightarrow> loop_inv st'"
proof (induction es arbitrary: st)
  case Nil
  then show ?case by simp
next
  case (Cons e es)
  obtain k v where e: "e = Entity k v" by (cases e)
  obtain cg lf s where st: "st = (cg, lf, s)" by (cases st)
  from Cons.prems(2) obtain st1 where 1: "step w2n (Entity k v) (cg, lf, s) = Inr st1"
    and 2: "loop w2n es st1 = Inr st'"
    by (auto simp: e st split: sum.splits)
  from step_Inr_inv [OF Cons.prems(1) [unfolded st] 1] have "loop_inv st1" .
  from Cons.IH [OF this 2] show ?case .
qed

lemma loop_inv_init: "loop_inv ([], False, s)"
  by (simp add: loop_inv_def)

text \<open>
  A failing step returns \<^verbatim>\<open>False\<close> with the object as it was before the step, one
  message added.
\<close>

lemma step_Inl_fail:
  assumes "loop_inv (cg, lf, s)" "step w2n (Entity k v) (cg, lf, s) = Inl (r, s')"
  shows "r = RFalse \<and> (\<exists>m. s' = utter_message m s)"
proof -
  from assms(1) have t: "typed {''passages'', ''line''} cg" by (simp add: loop_inv_def)
  from step_Inl [OF assms]
  consider "flush w2n cg s = Inl (r, s')"
    | "k \<in> {''passages'', ''line''}"
      "flush w2n (dict_set k (Tup v (\<not> dict_in ''negation'' cg)) (dict_del ''negation'' cg)) s = Inl (r, s')"
    by blast
  then show ?thesis
  proof cases
    case 1
    from flush_fail [OF t 1] show ?thesis .
  next
    case 2
    have "typed {''passages'', ''line''} (dict_set k (Tup v (\<not> dict_in ''negation'' cg)) (dict_del ''negation'' cg))"
      by (simp add: typed_dict_set typed_dict_del t)
    from flush_fail [OF this 2(2)] show ?thesis .
  qed
qed

lemma loop_Inl_prefix:
  assumes "loop_inv st" "loop w2n es st = Inl (r, s')"
  shows "r = RFalse \<and> (\<exists>n cg lf s1 m. n < length es \<and>
           loop w2n (take n es) st = Inr (cg, lf, s1) \<and> s' = utter_message m s1)"
  using assms
proof (induction es arbitrary: st)
  case Nil
  then show ?case by simp
next
  case (Cons e es)
  obtain k v where e: "e = Entity k v" by (cases e)
  obtain cg lf s where st: "st = (cg, lf, s)" by (cases st)
  show ?case
  proof (cases "step w2n (Entity k v) (cg, lf, s)")
    case (Inl a)
    with Cons.prems(2) have a: "a = (r, s')" by (simp add: e st)
    from step_Inl_fail [OF Cons.prems(1) [unfolded st] Inl [unfolded a]]
    obtain m where "r = RFalse" "s' = utter_message m s" by blast
    then have "r = RFalse \<and> 0 < length (e # es) \<and>
        loop w2n (take 0 (e # es)) st = Inr (cg, lf, s) \<and> s' = utter_message m s"
      by (simp add: st)
    then show ?thesis by blast
  next
    case (Inr st1)
    with Cons.prems(2) have l: "loop w2n es st1 = Inl (r, s')" by (simp add: e st)
    from step_Inr_inv [OF Cons.prems(1) [unfolded st] Inr] have "loop_inv st1" .
    from Cons.IH [OF this l] obtain n cg1 lf1 s1 m where r: "r = RFalse"
      and n: "n < length es" "loop w2n (take n es) st1 = Inr (cg1, lf1, s1)"
        "s' = utter_message m s1"
      by blast
    from n Inr have "Suc n < length (e # es) \<and>
        loop w2n (take (Suc n) (e # es)) st = Inr (cg1, lf1, s1) \<and> s' = utter_message m s1"
      by (simp add: e st)
    with r show ?thesis by blast
  qed
qed

section \<open>The whole update\<close>

lemma update_cases:
  assumes "update w2n es s = (r, s')"
  shows "(r = RTrue \<and> (\<exists>cg lf s1. loop w2n es ([], False, s) = Inr (cg, lf, s1) \<and>
              (if cg = [] then s' = s1 else flush w2n cg s1 = Inr s')))
       \<or> (r = RFalse \<and> (\<exists>n cg lf s1 m. n \<le> length es \<and>
              loop w2n (take n es) ([], False, s) = Inr (cg, lf, s1) \<and> s' = utter_message m s1))"
proof (cases "loop w2n es ([], False, s)")
  case (Inl a)
  with assms have "a = (r, s')" by (simp add: update_def finish_def)
  with loop_Inl_prefix [OF loop_inv_init, of w2n es s r s'] Inl
  obtain n cg lf s1 m where "r = RFalse" "n < length es"
    "loop w2n (take n es) ([], False, s) = Inr (cg, lf, s1)" "s' = utter_message m s1"
    by blast
  then have "r = RFalse \<and> n \<le> length es \<and>
    loop w2n (take n es) ([], False, s) = Inr (cg, lf, s1) \<and> s' = utter_message m s1"
    by simp
  then show ?thesis by blast
next
  case (Inr st1)
  obtain cg lf s1 where st1: "st1 = (cg, lf, s1)" by (cases st1)
  from loop_Inr_inv [OF loop_inv_init Inr] have t: "typed {''passages'', ''line''} cg"
    by (simp add: st1 loop_inv_def)
  show ?thesis
  proof (cases "cg = []")
    case True
    with assms Inr st1 show ?thesis by (simp add: update_def finish_def)
  next
    case False
    show ?thesis
    proof (cases "flush w2n cg s1")
      case (Inl a)
      with assms Inr st1 False have a: "a = (r, s')" by (simp add: update_def finish_def)
      from flush_fail [OF t Inl [unfolded a]] obtain m where "r = RFalse" "s' = utter_message m s1"
        by blast
      with Inr st1 have "r = RFalse \<and> length es \<le> length es \<and>
        loop w2n (take (length es) es) ([], False, s) = Inr (cg, lf, s1) \<and> s' = utter_message m s1"
        by simp
      then show ?thesis by blast
    next
      case (Inr b)
      with assms \<open>loop w2n es ([], False, s) = Inr st1\<close> st1 False show ?thesis
        by (simp add: update_def finish_def)
    qed
  qed
qed

lemma update_well_typed: "fst (update w2n es s) \<noteq> IllTyped"
  using update_cases [of w2n es s "fst (update w2n es s)" "snd (update w2n es s)"] by auto

lemma update_rel:
  assumes refl: "\<And>a. Q a a" and trans: "\<And>a b c. Q a b \<Longrightarrow> Q b c \<Longrightarrow> Q a c"
    and fl: "\<And>g a b. flush w2n g a = Inr b \<Longrightarrow> Q a b"
    and cl: "\<And>g x a. Q a (update_clothing g x a)"
    and ge: "\<And>g x a. Q a (update_gender g x a)"
    and ut: "\<And>m a. Q a (utter_message m a)"
  shows "Q s (snd (update w2n es s))"
proof -
  obtain r s' where u: "update w2n es s = (r, s')" by (cases "update w2n es s")
  have l: "Q s s1" if "loop w2n xs ([], False, s) = Inr (cg, lf, s1)" for xs cg lf s1
    using that by (rule loop_Inr_rel) (rule refl, erule trans, assumption, erule fl, rule cl, rule ge)
  from update_cases [OF u]
  consider cg lf s1 where "loop w2n es ([], False, s) = Inr (cg, lf, s1)"
      "s' = s1 \<or> flush w2n cg s1 = Inr s'"
    | n cg lf s1 m where "loop w2n (take n es) ([], False, s) = Inr (cg, lf, s1)"
      "s' = utter_message m s1"
    by (auto split: if_splits)
  then have "Q s s'"
  proof cases
    case 1
    from l [OF 1(1)] have "Q s s1" .
    moreover from 1(2) have "Q s1 s'" using refl fl by blast
    ultimately show ?thesis by (rule trans)
  next
    case 2
    from l [OF 2(1)] have "Q s s1" .
    moreover from 2(2) have "Q s1 s'" using ut by simp
    ultimately show ?thesis by (rule trans)
  qed
  with u show ?thesis by simp
qed

lemma committed_well_formed:
  "committed t s s' \<Longrightarrow> complete (Some t) \<Longrightarrow> well_formed (foi s) \<Longrightarrow> well_formed (foi s')"
  by (auto simp: committed_def well_formed_def)

lemma update_well_formed:
  "well_formed (foi s) \<Longrightarrow> well_formed (foi (snd (update w2n es s)))"
proof -
  have "well_formed (foi s) \<longrightarrow> well_formed (foi (snd (update w2n es s)))"
  proof (rule update_rel [where Q = "\<lambda>a b. well_formed (foi a) \<longrightarrow> well_formed (foi b)"])
    fix g a b assume "flush w2n g a = Inr b"
    from flush_ok [OF this] show "well_formed (foi a) \<longrightarrow> well_formed (foi b)"
      by (blast intro: committed_well_formed)
  qed (simp_all add: update_clothing_def update_gender_def utter_message_def well_formed_def Let_def)
  then show "well_formed (foi s) \<Longrightarrow> well_formed (foi (snd (update w2n es s)))" by simp
qed

section \<open>The group domain\<close>

lemma typed_other:
  "k \<notin> K \<Longrightarrow> typed K g \<Longrightarrow> typed K (dict_set k x g)"
  "k \<notin> K \<Longrightarrow> typed K [(k, x)]"
  by (auto intro: typed_dict_set typed_single)

lemma word_to_number_cases:
  "word_to_number P w d = (x, d') \<Longrightarrow>
     (x \<noteq> None \<and> d' = d) \<or> (x = None \<and> d' = d @ [number_text w])"
  unfolding word_to_number_def
  by (cases x; cases "py_int P w"; cases "py_float P w"; cases "word_to_num P w") auto

lemma group_mark_cases:
  assumes "group_mark P g d = Some ((x, n), d')"
  shows "(x = None \<and> n = None \<and> d' = d) \<or> (\<exists>b. n = Some b \<and> ((x \<noteq> None \<and> d' = d) \<or> (x = None \<and> (\<exists>m. d' = d @ [m]))))"
proof (cases "map_of g ''mark''")
  case None
  with assms show ?thesis by (cases x) (auto simp: group_mark_def)
next
  case (Some v)
  show ?thesis
  proof (cases v)
    case (Tup a b)
    obtain q e where q: "word_to_number P a d = (q, e)" by (cases "word_to_number P a d")
    from assms Some Tup q have "x = q" "d' = e" "n = Some b" by (simp_all add: group_mark_def)
    with word_to_number_cases [OF q] show ?thesis by auto
  next
    case (Plain s)
    with assms Some show ?thesis by (simp add: group_mark_def)
  qed
qed

lemma group_mark_None:
  "group_mark P g d = None \<Longrightarrow> \<not> typed {''mark''} g"
proof -
  assume "group_mark P g d = None"
  then have "\<exists>x. map_of g ''mark'' = Some (Plain x)"
    by (auto simp: group_mark_def split: option.splits gval.splits prod.splits)
  then show ?thesis by (auto dest: typed_map_of [where k = "''mark''"])
qed

lemma update_score_cases:
  assumes "update_score P g s = (r, s')"
  shows "(r = RTrue \<and> (\<exists>x n. s' = s\<lparr>score := Some (Some x, Some n)\<rparr>))
       \<or> (r = RFalse \<and> score s' = score s)
       \<or> (r = IllTyped \<and> \<not> typed {''mark''} g \<and> s' = s)"
proof (cases "group_mark P g (groups_dispatcher s)")
  case None
  with assms group_mark_None [OF None] show ?thesis by (simp add: update_score_def)
next
  case (Some a)
  obtain x n d where a: "a = ((x, n), d)" by (cases a) auto
  note c = group_mark_cases [OF Some [unfolded a]]
  show ?thesis
  proof (cases x)
    case None
    with assms Some a show ?thesis by (auto simp: update_score_def)
  next
    case sx: (Some y)
    with c obtain b where "n = Some b" "d = groups_dispatcher s" by auto
    with assms Some a sx show ?thesis by (auto simp: update_score_def)
  qed
qed

lemma flush_score_Inr: "flush_score P g s = Inr s' \<Longrightarrow> update_score P g s = (RTrue, s')"
  by (auto simp: flush_score_def split: prod.splits ret.splits)

lemma flush_score_Inl:
  "flush_score P g s = Inl (r, s') \<Longrightarrow> update_score P g s = (r, s') \<and> r \<noteq> RTrue"
  by (auto simp: flush_score_def split: prod.splits ret.splits)

lemma mark_entity_Inl:
  "mark_entity P k v (cg, f, s) = Inl r \<Longrightarrow> flush_score P cg s = Inl r"
  by (auto simp: mark_entity_def Let_def split: if_splits sum.splits)

lemma mark_entity_Inr:
  assumes "mark_entity P k v (cg, f, s) = Inr (cg', f', s')" "k \<noteq> ''negation''"
  shows "(flush_score P cg s = Inr s' \<and> (\<exists>n. cg' = [(k, Tup v n)]))
        \<or> (s' = s \<and> cg' = dict_set k (Tup v (\<not> dict_in ''negation'' cg)) (dict_del ''negation'' cg))"
  using assms
  by (auto simp: mark_entity_def Let_def dict_del_absent split: if_splits sum.splits)

lemma groups_other_entity_Inl:
  "groups_other_entity P k v (cg, f, s) = Inl r \<Longrightarrow> flush_score P cg s = Inl r"
  by (auto simp: groups_other_entity_def split: if_splits sum.splits)

lemma groups_other_entity_Inr:
  assumes "groups_other_entity P k v (cg, f, s) = Inr (cg', f', s')"
  shows "(cg' = dict_set k (Plain v) cg \<and> s' = s) \<or> (flush_score P cg s = Inr s' \<and> cg' = [(k, Plain v)])"
  using assms by (auto simp: groups_other_entity_def split: if_splits sum.splits)

lemma complete_mark_Inl:
  "complete_mark P (cg, f, s) = Inl r \<Longrightarrow> flush_score P cg s = Inl r"
  by (auto simp: complete_mark_def split: if_splits sum.splits)

lemma complete_mark_Inr:
  assumes "complete_mark P (cg, f, s) = Inr (cg', f', s')"
  shows "(cg' = cg \<and> s' = s) \<or> (flush_score P cg s = Inr s' \<and> cg' = [])"
  using assms by (auto simp: complete_mark_def split: if_splits sum.splits)

text \<open>
  A step of the loop of the group domain is at most two flushes; a flush that fails ends
  it, on a group that is typed when the group before the step was.
\<close>

lemma groups_step_Inl:
  assumes "groups_step P (Entity k v) (cg, f, s) = Inl r" "typed {''mark''} cg"
  shows "\<exists>g s1. typed {''mark''} g \<and> (s1 = s \<or> (\<exists>g'. flush_score P g' s = Inr s1))
     \<and> flush_score P g s1 = Inl r"
proof (cases "k \<in> {''mark''}")
  case True
  then have kn: "k \<noteq> ''negation''" by auto
  show ?thesis
  proof (cases "mark_entity P k v (cg, f, s)")
    case (Inl a)
    with assms(1) True have "a = r" by (simp add: groups_step_def)
    with mark_entity_Inl [OF Inl] assms(2) show ?thesis by blast
  next
    case (Inr st1)
    obtain cg1 f1 s1 where st1: "st1 = (cg1, f1, s1)" by (cases st1)
    from assms(1) True Inr st1 have "complete_mark P (cg1, f1, s1) = Inl r"
      by (simp add: groups_step_def)
    from complete_mark_Inl [OF this] have fl: "flush_score P cg1 s1 = Inl r" .
    from mark_entity_Inr [OF Inr [unfolded st1] kn]
    consider n where "flush_score P cg s = Inr s1" "cg1 = [(k, Tup v n)]"
      | "s1 = s" "cg1 = dict_set k (Tup v (\<not> dict_in ''negation'' cg)) (dict_del ''negation'' cg)"
      by blast
    then show ?thesis
    proof cases
      case 1
      then have "typed {''mark''} cg1" by (simp add: typed_single)
      with 1 fl show ?thesis by blast
    next
      case 2
      then have "typed {''mark''} cg1" by (simp add: typed_dict_set typed_dict_del assms(2))
      with 2 fl show ?thesis by blast
    qed
  qed
next
  case False
  show ?thesis
  proof (cases "groups_other_entity P k v (cg, f, s)")
    case (Inl a)
    with assms(1) False have "a = r" by (simp add: groups_step_def)
    with groups_other_entity_Inl [OF Inl] assms(2) show ?thesis by blast
  next
    case (Inr st1)
    obtain cg1 f1 s1 where st1: "st1 = (cg1, f1, s1)" by (cases st1)
    from assms(1) False Inr st1 have "complete_mark P (cg1, f1, s1) = Inl r"
      by (simp add: groups_step_def)
    from complete_mark_Inl [OF this] have fl: "flush_score P cg1 s1 = Inl r" .
    from groups_other_entity_Inr [OF Inr [unfolded st1]]
    consider "cg1 = dict_set k (Plain v) cg" "s1 = s"
      | "flush_score P cg s = Inr s1" "cg1 = [(k, Plain v)]"
      by blast
    then show ?thesis
    proof cases
      case 1
      with False have "typed {''mark''} cg1" by (simp add: typed_other assms(2))
      with 1 fl show ?thesis by blast
    next
      case 2
      with False have "typed {''mark''} cg1" by (simp add: typed_other)
      with 2 fl show ?thesis by blast
    qed
  qed
qed

lemma groups_step_Inr:
  assumes "groups_step P (Entity k v) (cg, f, s) = Inr (cg', f', s')" "typed {''mark''} cg"
  shows "typed {''mark''} cg' \<and>
     (s' = s \<or> (\<exists>g. flush_score P g s = Inr s')
      \<or> (\<exists>g g' s1. flush_score P g s = Inr s1 \<and> flush_score P g' s1 = Inr s'))"
proof (cases "k \<in> {''mark''}")
  case True
  then have kn: "k \<noteq> ''negation''" by auto
  from assms(1) True obtain st1 where me: "mark_entity P k v (cg, f, s) = Inr st1"
    and c: "complete_mark P st1 = Inr (cg', f', s')"
    by (auto simp: groups_step_def split: sum.splits)
  obtain cg1 f1 s1 where st1: "st1 = (cg1, f1, s1)" by (cases st1)
  from mark_entity_Inr [OF me [unfolded st1] kn]
  have 1: "s1 = s \<or> flush_score P cg s = Inr s1"
    and t: "typed {''mark''} cg1"
    by (auto simp: typed_single typed_dict_set typed_dict_del assms(2))
  from complete_mark_Inr [OF c [unfolded st1]]
  have 2: "(cg' = cg1 \<and> s' = s1) \<or> (flush_score P cg1 s1 = Inr s' \<and> cg' = [])" .
  from 2 t have "typed {''mark''} cg'" by auto
  moreover from 1 2 have "s' = s \<or> (\<exists>g. flush_score P g s = Inr s')
      \<or> (\<exists>g g' s1. flush_score P g s = Inr s1 \<and> flush_score P g' s1 = Inr s')"
    by blast
  ultimately show ?thesis ..
next
  case False
  from assms(1) False obtain st1 where oe: "groups_other_entity P k v (cg, f, s) = Inr st1"
    and c: "complete_mark P st1 = Inr (cg', f', s')"
    by (auto simp: groups_step_def split: sum.splits)
  obtain cg1 f1 s1 where st1: "st1 = (cg1, f1, s1)" by (cases st1)
  from groups_other_entity_Inr [OF oe [unfolded st1]] False
  have 1: "s1 = s \<or> flush_score P cg s = Inr s1"
    and t: "typed {''mark''} cg1"
    by (auto simp: typed_other assms(2))
  from complete_mark_Inr [OF c [unfolded st1]]
  have 2: "(cg' = cg1 \<and> s' = s1) \<or> (flush_score P cg1 s1 = Inr s' \<and> cg' = [])" .
  from 2 t have "typed {''mark''} cg'" by auto
  moreover from 1 2 have "s' = s \<or> (\<exists>g. flush_score P g s = Inr s')
      \<or> (\<exists>g g' s1. flush_score P g s = Inr s1 \<and> flush_score P g' s1 = Inr s')"
    by blast
  ultimately show ?thesis ..
qed

lemma flush_score_fail:
  assumes "flush_score P g a = Inl (r, b)" "typed {''mark''} g"
  shows "r = RFalse \<and> update_score P g a = (r, b)"
proof -
  from flush_score_Inl [OF assms(1)] have u: "update_score P g a = (r, b)" and n: "r \<noteq> RTrue"
    by simp_all
  from update_score_cases [OF u] n assms(2) have "r = RFalse" by blast
  with u show ?thesis by simp
qed

lemma groups_step_rel:
  assumes refl: "\<And>a. Q a a" and trans: "\<And>a b c. Q a b \<Longrightarrow> Q b c \<Longrightarrow> Q a c"
    and upd: "\<And>g a r b. update_score P g a = (r, b) \<Longrightarrow> Q a b"
    and t: "typed {''mark''} cg"
  shows "groups_step P (Entity k v) (cg, f, s) = Inl (r, s') \<Longrightarrow> Q s s' \<and> r = RFalse"
    and "groups_step P (Entity k v) (cg, f, s) = Inr (cg', f', s') \<Longrightarrow> Q s s' \<and> typed {''mark''} cg'"
proof -
  have ok: "Q a b" if "flush_score P g a = Inr b" for g a b
    using flush_score_Inr [OF that] by (rule upd)
  {
    assume "groups_step P (Entity k v) (cg, f, s) = Inl (r, s')"
    from groups_step_Inl [OF this t] obtain g s1 where g: "typed {''mark''} g"
      and s1: "s1 = s \<or> (\<exists>g'. flush_score P g' s = Inr s1)"
      and fl: "flush_score P g s1 = Inl (r, s')"
      by blast
    from s1 have "Q s s1" using refl ok by blast
    moreover from flush_score_fail [OF fl g] have "r = RFalse" "Q s1 s'" using upd by blast+
    ultimately show "Q s s' \<and> r = RFalse" by (blast intro: trans)
  }
  {
    assume "groups_step P (Entity k v) (cg, f, s) = Inr (cg', f', s')"
    from groups_step_Inr [OF this t] have t': "typed {''mark''} cg'"
      and c: "s' = s \<or> (\<exists>g. flush_score P g s = Inr s')
        \<or> (\<exists>g g' s1. flush_score P g s = Inr s1 \<and> flush_score P g' s1 = Inr s')"
      by blast+
    from c have "Q s s'" using refl ok by (blast intro: trans)
    with t' show "Q s s' \<and> typed {''mark''} cg'" by simp
  }
qed

lemma groups_loop_rel:
  assumes refl: "\<And>a. Q a a" and trans: "\<And>a b c. Q a b \<Longrightarrow> Q b c \<Longrightarrow> Q a c"
    and upd: "\<And>g a r b. update_score P g a = (r, b) \<Longrightarrow> Q a b"
  shows "typed {''mark''} cg \<Longrightarrow>
     (case groups_loop P es (cg, f, s) of
        Inl (r, s') \<Rightarrow> Q s s' \<and> r = RFalse
      | Inr (cg', f', s') \<Rightarrow> Q s s' \<and> typed {''mark''} cg')"
proof (induction es arbitrary: cg f s)
  case Nil
  then show ?case by (simp add: refl)
next
  case (Cons e es)
  obtain k v where e: "e = Entity k v" by (cases e)
  show ?case
  proof (cases "groups_step P (Entity k v) (cg, f, s)")
    case (Inl a)
    obtain r s' where a: "a = (r, s')" by (cases a)
    have "Q s s' \<and> r = RFalse"
      by (rule groups_step_rel(1) [where Q = Q, OF refl trans upd Cons.prems Inl [unfolded a]])
    with Inl a show ?thesis by (simp add: e)
  next
    case (Inr st1)
    obtain cg1 f1 s1 where st1: "st1 = (cg1, f1, s1)" by (cases st1)
    have 1: "Q s s1 \<and> typed {''mark''} cg1"
      by (rule groups_step_rel(2) [where Q = Q, OF refl trans upd Cons.prems Inr [unfolded st1]])
    then have "typed {''mark''} cg1" ..
    from Cons.IH [OF this, where f = f1 and s = s1] 1 Inr st1 show ?thesis
      by (auto simp: e split: sum.splits intro: trans)
  qed
qed

lemma groups_update_rel:
  assumes refl: "\<And>a. Q a a" and trans: "\<And>a b c. Q a b \<Longrightarrow> Q b c \<Longrightarrow> Q a c"
    and upd: "\<And>g a r b. update_score P g a = (r, b) \<Longrightarrow> Q a b"
  shows "Q s (snd (groups_update P es s)) \<and> fst (groups_update P es s) \<noteq> IllTyped"
proof (cases "groups_loop P es ([], False, s)")
  case (Inl a)
  obtain r s' where a: "a = (r, s')" by (cases a)
  from groups_loop_rel [where Q = Q and P = P and es = es and f = False and s = s, OF refl trans upd typed_Nil] Inl a
  show ?thesis by (simp add: groups_update_def groups_finish_def)
next
  case (Inr st1)
  obtain cg f s1 where st1: "st1 = (cg, f, s1)" by (cases st1)
  from groups_loop_rel [where Q = Q and P = P and es = es and f = False and s = s, OF refl trans upd typed_Nil] Inr st1
  have q: "Q s s1" and t: "typed {''mark''} cg" by simp_all
  show ?thesis
  proof (cases "cg = []")
    case True
    with Inr st1 q show ?thesis by (simp add: groups_update_def groups_finish_def)
  next
    case False
    show ?thesis
    proof (cases "flush_score P cg s1")
      case (Inl a)
      obtain r s' where a: "a = (r, s')" by (cases a)
      from flush_score_fail [OF Inl [unfolded a] t] have "r = RFalse" "Q s1 s'" using upd by blast+
      with q have "Q s s'" "r \<noteq> IllTyped" by (blast intro: trans, simp)
      with Inl a \<open>groups_loop P es ([], False, s) = Inr st1\<close> st1 False show ?thesis
        by (simp add: groups_update_def groups_finish_def)
    next
      case (Inr b)
      from flush_score_Inr [OF Inr] have "Q s1 b" by (rule upd)
      with q have "Q s b" by (rule trans)
      with Inr \<open>groups_loop P es ([], False, s) = Inr st1\<close> st1 False show ?thesis
        by (simp add: groups_update_def groups_finish_def)
    qed
  qed
qed

lemma groups_update_well_typed: "fst (groups_update P es s) \<noteq> IllTyped"
  using groups_update_rel [where Q = "\<lambda>a b. True"] by simp

lemma groups_update_complete:
  "complete (score s) \<Longrightarrow> complete (score (snd (groups_update P es s)))"
proof -
  have "(complete (score s) \<longrightarrow> complete (score (snd (groups_update P es s))))
      \<and> fst (groups_update P es s) \<noteq> IllTyped"
  proof (rule groups_update_rel [where Q = "\<lambda>a b. complete (score a) \<longrightarrow> complete (score b)"])
    fix g a r b assume "update_score P g a = (r, b)"
    from update_score_cases [OF this] show "complete (score a) \<longrightarrow> complete (score b)"
      by (auto simp: complete_simps)
  qed simp_all
  then show "complete (score s) \<Longrightarrow> complete (score (snd (groups_update P es s)))" by simp
qed


section \<open>Claim about the thresholds\<close>

lemma updates_well_formed:
  "well_formed (foi s) \<Longrightarrow> well_formed (foi (updates w2n ess s))"
  by (induction ess arbitrary: s) (simp_all add: update_well_formed)

lemma groups_updates_complete:
  "complete (score g) \<Longrightarrow> complete (score (groups_updates P ess g))"
  by (induction ess arbitrary: g) (simp_all add: groups_update_complete)

text \<open>
  C9. A threshold field is never half formed. If the four line fields of the object are
  each unset or a pair of a bound and a direction, both present, they are so after
  \<^verbatim>\<open>TrackingPeople.update\<close> on any stream, whether it returns \<^verbatim>\<open>True\<close> or \<^verbatim>\<open>False\<close>, and
  after any sequence of such updates; the object that \<^verbatim>\<open>__init__\<close> builds starts so. The
  same holds of the score field under \<^verbatim>\<open>TrackingGroups.update\<close>.
\<close>

theorem thresholds_never_half_formed:
  "(well_formed (foi s) \<longrightarrow> well_formed (foi (snd (update w2n es s))))
   \<and> (well_formed (foi s) \<longrightarrow> well_formed (foi (updates w2n ess s)))
   \<and> well_formed (foi (updates w2n ess (init l1 l2 l3 l4)))
   \<and> (complete (score g) \<longrightarrow> complete (score (snd (groups_update P ms g))))
   \<and> (complete (score g) \<longrightarrow> complete (score (groups_updates P mss g)))"
proof -
  have "well_formed (foi (init l1 l2 l3 l4))"
    by (simp add: init_def empty_foi_def well_formed_def complete_simps)
  then have "well_formed (foi (updates w2n ess (init l1 l2 l3 l4)))"
    by (rule updates_well_formed)
  then show ?thesis
    by (simp add: update_well_formed updates_well_formed groups_update_complete
        groups_updates_complete)
qed

theorem thresholds_never_half_formed_witness:
  "well_formed (foi pepper)
   \<and> well_formed (foi (snd (update (\<lambda>_. None)
        [Entity ''negation'' ''not'', Entity ''passages'' ''twice'', Entity ''line'' ''alpha line'']
        pepper)))
   \<and> well_formed (foi (snd (update (\<lambda>_. None)
        [Entity ''passages'' ''often'', Entity ''line'' ''alpha line''] pepper)))
   \<and> complete (score no_score)
   \<and> complete (score (snd (groups_update digit_parsers [Entity ''mark'' ''7''] no_score)))"
proof -
  have h: "well_formed (foi pepper)" "complete (score no_score)"
    by (simp_all add: pepper_def init_def empty_foi_def well_formed_def complete_simps no_score_def)
  show ?thesis
    using h
      thresholds_never_half_formed [of pepper "\<lambda>_. None"
        "[Entity ''negation'' ''not'', Entity ''passages'' ''twice'', Entity ''line'' ''alpha line'']"
        "[]" "[]" "[]" "[]" "[]" no_score digit_parsers "[Entity ''mark'' ''7'']" "[]"]
      thresholds_never_half_formed [of pepper "\<lambda>_. None"
        "[Entity ''passages'' ''often'', Entity ''line'' ''alpha line'']"
        "[]" "[]" "[]" "[]" "[]" no_score digit_parsers "[Entity ''mark'' ''7'']" "[]"]
    by simp
qed

section \<open>Scope of a negation\<close>

lemma step_line_no_negation:
  assumes "k \<in> {''passages'', ''line''}" "step w2n (Entity k v) (cg, lf, s) = Inr (cg', lf', s')"
  shows "\<not> dict_in ''negation'' cg'"
proof -
  from assms(1) have kn: "k \<noteq> ''negation''" by auto
  from assms obtain st1 where le: "line_entity w2n k v (cg, lf, s) = Inr st1"
    and c: "complete_group w2n st1 = Inr (cg', lf', s')"
    by (auto simp: step_line split: sum.splits)
  obtain cg1 lf1 s1 where st1: "st1 = (cg1, lf1, s1)" by (cases st1)
  from line_entity_Inr [OF le [unfolded st1] kn] have "\<not> dict_in ''negation'' cg1" by blast
  moreover from complete_group_Inr [OF c [unfolded st1]] have "cg' = cg1 \<or> cg' = []" by blast
  ultimately show ?thesis by auto
qed

text \<open>
  What a clothing or gender entity does to the loop state: the group it is resolved
  against is the group before it with the entity added when no line group was open, and
  the entity alone when one was; afterwards the group is empty and the flag down.
\<close>

lemma step_resolve:
  assumes "k \<in> {''clothing'', ''gender''}" "loop_inv (cg, lf, s)"
    "step w2n (Entity k v) (cg, lf, s) = Inr (cg', lf', s')"
  shows "cg' = [] \<and> \<not> lf' \<and>
     (\<exists>g s0. (if lf then g = [(k, Plain v)] \<and> flush w2n cg s = Inr s0
              else g = dict_set k (Plain v) cg \<and> s0 = s)
        \<and> s' = (if k = ''clothing'' then update_clothing g v s0 else update_gender g v s0))"
proof -
  from assms(1) have kl: "k \<notin> {''passages'', ''line''}" and kn: "k \<noteq> ''negation''" by auto
  from assms(3) kl obtain st1 st2 where oe: "other_entity w2n k v (cg, lf, s) = Inr st1"
    and c: "complete_group w2n st1 = Inr st2" and r: "resolve k v st2 = (cg', lf', s')"
    by (auto simp: step_other split: sum.splits)
  obtain cg1 lf1 s1 where st1: "st1 = (cg1, lf1, s1)" by (cases st1)
  obtain cg2 lf2 s2 where st2: "st2 = (cg2, lf2, s2)" by (cases st2)
  from other_entity_Inr [OF oe [unfolded st1]] kn
  have 1: "\<not> lf1" "if lf then cg1 = [(k, Plain v)] \<and> flush w2n cg s = Inr s1
              else cg1 = dict_set k (Plain v) cg \<and> s1 = s"
    by auto
  from other_entity_Inr_inv [OF oe [unfolded st1] kl assms(2)] have "loop_inv (cg1, lf1, s1)" .
  then have "\<not> (dict_in ''passages'' cg1 \<and> dict_in ''line'' cg1)" by (simp add: loop_inv_def)
  with complete_group_Inr [OF c [unfolded st1 st2]] have 2: "cg2 = cg1" "lf2 = lf1" "s2 = s1"
    by auto
  have sub: "if k = ''clothing'' then sublist ''clothing'' k
             else \<not> sublist ''clothing'' k \<and> sublist ''gender'' k"
    using assms(1) by (auto simp: sublist_code prefix_code)
  from resolve_cases [OF r [unfolded st2]] 1(1) 2 sub
  have 3: "cg' = []" "\<not> lf'"
    "s' = (if k = ''clothing'' then update_clothing cg1 v s1 else update_gender cg1 v s1)"
    by (auto split: if_splits)
  from 1(2) 3(3) have "\<exists>g s0. (if lf then g = [(k, Plain v)] \<and> flush w2n cg s = Inr s0
              else g = dict_set k (Plain v) cg \<and> s0 = s)
        \<and> s' = (if k = ''clothing'' then update_clothing g v s0 else update_gender g v s0)"
    by (cases lf) auto
  with 3(1,2) show ?thesis by simp
qed

lemma loop_RTrue:
  assumes "update w2n es s = (RTrue, s')"
  shows "\<exists>cg lf s1. loop w2n es ([], False, s) = Inr (cg, lf, s1) \<and> loop_inv (cg, lf, s1) \<and>
     (if cg = [] then s' = s1 else flush w2n cg s1 = Inr s')"
proof -
  from update_cases [OF assms] obtain cg lf s1 where
    l: "loop w2n es ([], False, s) = Inr (cg, lf, s1)"
    and f: "if cg = [] then s' = s1 else flush w2n cg s1 = Inr s'"
    by auto
  from loop_Inr_inv [OF loop_inv_init l] l f show ?thesis by blast
qed

lemma loop_snoc:
  "loop w2n (xs @ [e]) st = (case loop w2n xs st of Inl r \<Rightarrow> Inl r | Inr st' \<Rightarrow> step w2n e st')"
  by (auto simp: loop_append split: sum.splits)

lemma update_after_resolve:
  assumes "key_of e \<in> {''clothing'', ''gender''}" "update w2n (pre @ [e]) s = (RTrue, s1)"
  shows "update w2n (pre @ e # post) s = update w2n post s1"
proof -
  obtain k v where e: "e = Entity k v" by (cases e)
  from loop_RTrue [OF assms(2)] obtain cg lf s2 where
    l: "loop w2n (pre @ [e]) ([], False, s) = Inr (cg, lf, s2)"
    and f: "if cg = [] then s1 = s2 else flush w2n cg s2 = Inr s1"
    by blast
  from l obtain st0 where l0: "loop w2n pre ([], False, s) = Inr st0"
    and st: "step w2n e st0 = Inr (cg, lf, s2)"
    by (auto simp: loop_snoc split: sum.splits)
  obtain cg0 lf0 s0 where st0: "st0 = (cg0, lf0, s0)" by (cases st0)
  from loop_Inr_inv [OF loop_inv_init l0] have i: "loop_inv (cg0, lf0, s0)" by (simp add: st0)
  from step_resolve [OF _ i st [unfolded e st0]] assms(1) e have "cg = []" "\<not> lf" by auto
  with f l have "loop w2n (pre @ [e]) ([], False, s) = Inr ([], False, s1)" by simp
  then have "loop w2n ((pre @ [e]) @ post) ([], False, s) = loop w2n post ([], False, s1)"
    by (simp only: loop_append sum.case)
  then show ?thesis by (simp add: update_def)
qed

lemma affirmed_after_clause:
  assumes "key_of e \<in> {''passages'', ''line'', ''clothing'', ''gender''}"
    "k \<in> {''clothing'', ''gender''}"
    "update w2n (pre @ [e, Entity k v]) s = (RTrue, s')"
  shows "\<exists>g s0. \<not> dict_in ''negation'' g \<and>
     s' = (if k = ''clothing'' then update_clothing g v s0 else update_gender g v s0)"
proof -
  obtain ke ve where e: "e = Entity ke ve" by (cases e)
  from loop_RTrue [OF assms(3)] obtain cg lf s2 where
    l: "loop w2n (pre @ [e, Entity k v]) ([], False, s) = Inr (cg, lf, s2)"
    and f: "if cg = [] then s' = s2 else flush w2n cg s2 = Inr s'"
    by blast
  from l have "loop w2n ((pre @ [e]) @ [Entity k v]) ([], False, s) = Inr (cg, lf, s2)" by simp
  then obtain st1 where l1: "loop w2n (pre @ [e]) ([], False, s) = Inr st1"
    and st: "step w2n (Entity k v) st1 = Inr (cg, lf, s2)"
    by (auto simp only: loop_snoc split: sum.splits)
  from l1 obtain st0 where l0: "loop w2n pre ([], False, s) = Inr st0"
    and st': "step w2n e st0 = Inr st1"
    by (auto simp: loop_snoc split: sum.splits)
  obtain cg0 lf0 s0 where st0: "st0 = (cg0, lf0, s0)" by (cases st0)
  obtain cg1 lf1 s1 where st1: "st1 = (cg1, lf1, s1)" by (cases st1)
  from loop_Inr_inv [OF loop_inv_init l0] have i0: "loop_inv (cg0, lf0, s0)" by (simp add: st0)
  have nn: "\<not> dict_in ''negation'' cg1"
  proof (cases "ke \<in> {''passages'', ''line''}")
    case True
    then show ?thesis by (rule step_line_no_negation [OF _ st' [unfolded e st0 st1]])
  next
    case False
    with assms(1) e have "ke \<in> {''clothing'', ''gender''}" by simp
    from step_resolve [OF this i0 st' [unfolded e st0 st1]] show ?thesis by simp
  qed
  from loop_Inr_inv [OF loop_inv_init l1] have i: "loop_inv (cg1, lf1, s1)" by (simp add: st1)
  from assms(2) have kn: "k \<noteq> ''negation''" by auto
  from step_resolve [OF assms(2) i st [unfolded st1]] obtain g sa where
    c: "cg = []"
    and g: "if lf1 then g = [(k, Plain v)] \<and> flush w2n cg1 s1 = Inr sa
            else g = dict_set k (Plain v) cg1 \<and> sa = s1"
    and s2: "s2 = (if k = ''clothing'' then update_clothing g v sa else update_gender g v sa)"
    by blast
  from g nn kn have "\<not> dict_in ''negation'' g" by (cases lf1) auto
  moreover from c f s2 have "s' = (if k = ''clothing'' then update_clothing g v sa else update_gender g v sa)"
    by simp
  ultimately show ?thesis by blast
qed


text \<open>
  What holds of the scope of a negation on every stream. The stream
  [negation, clothing hat] stores \<^verbatim>\<open>False\<close> in the hat field and [clothing hat] alone
  stores \<^verbatim>\<open>True\<close>. Once a clothing or gender entity has been resolved the interpreter
  keeps nothing of what came before: the rest of the stream is interpreted as a stream of
  its own on the object reached. A hat, bag or gender entity that directly follows a
  quantity, line, clothing or gender entity is resolved affirmed, whatever negations the
  stream held before that entity.
\<close>

theorem negation_scope:
  "update w2n [Entity ''negation'' x, Entity ''clothing'' ''hat''] s =
     (RTrue, s\<lparr>foi := (foi s)\<lparr>hat := Some False\<rparr>\<rparr>)
   \<and> update w2n [Entity ''clothing'' ''hat''] s = (RTrue, s\<lparr>foi := (foi s)\<lparr>hat := Some True\<rparr>\<rparr>)
   \<and> (key_of e \<in> {''clothing'', ''gender''} \<longrightarrow> update w2n (pre @ [e]) s = (RTrue, s1) \<longrightarrow>
        update w2n (pre @ e # post) s = update w2n post s1)
   \<and> (key_of e \<in> {''passages'', ''line'', ''clothing'', ''gender''} \<longrightarrow>
        (update w2n (pre @ [e, Entity ''clothing'' ''hat'']) s = (RTrue, s') \<longrightarrow>
           hat (foi s') = Some True)
      \<and> (update w2n (pre @ [e, Entity ''clothing'' ''bag'']) s = (RTrue, s') \<longrightarrow>
           bag (foi s') = Some True)
      \<and> (update w2n (pre @ [e, Entity ''gender'' v]) s = (RTrue, s') \<longrightarrow>
           gender (foi s') = Some v))"
proof -
  have 1: "update w2n [Entity ''negation'' x, Entity ''clothing'' ''hat''] s =
     (RTrue, s\<lparr>foi := (foi s)\<lparr>hat := Some False\<rparr>\<rparr>)"
    and 2: "update w2n [Entity ''clothing'' ''hat''] s = (RTrue, s\<lparr>foi := (foi s)\<lparr>hat := Some True\<rparr>\<rparr>)"
    by (simp_all add: loop_defs flush_defs string_tests)
  have 3: "update w2n (pre @ e # post) s = update w2n post s1"
    if "key_of e \<in> {''clothing'', ''gender''}" "update w2n (pre @ [e]) s = (RTrue, s1)"
    using that by (rule update_after_resolve)
  have 4: "hat (foi s') = Some True"
    if "key_of e \<in> {''passages'', ''line'', ''clothing'', ''gender''}"
      "update w2n (pre @ [e, Entity ''clothing'' ''hat'']) s = (RTrue, s')"
    using affirmed_after_clause [OF that(1) _ that(2)] by (auto simp: update_clothing_def)
  have 5: "bag (foi s') = Some True"
    if "key_of e \<in> {''passages'', ''line'', ''clothing'', ''gender''}"
      "update w2n (pre @ [e, Entity ''clothing'' ''bag'']) s = (RTrue, s')"
    using affirmed_after_clause [OF that(1) _ that(2)] by (auto simp: update_clothing_def)
  have 6: "gender (foi s') = Some v"
    if "key_of e \<in> {''passages'', ''line'', ''clothing'', ''gender''}"
      "update w2n (pre @ [e, Entity ''gender'' v]) s = (RTrue, s')"
    using affirmed_after_clause [OF that(1) _ that(2)] by (auto simp: update_gender_def)
  show ?thesis
    by (intro conjI impI) (fact 1, fact 2, erule (1) 3, erule (1) 4, erule (1) 5, erule (1) 6)
qed

theorem negation_scope_witness:
  "key_of (Entity ''clothing'' ''hat'') \<in> {''clothing'', ''gender''}
   \<and> update (\<lambda>_. None) ([Entity ''negation'' ''not''] @ [Entity ''clothing'' ''hat'']) pepper =
       (RTrue, pepper\<lparr>foi := (foi pepper)\<lparr>hat := Some False\<rparr>\<rparr>)
   \<and> update (\<lambda>_. None)
        ([Entity ''negation'' ''not''] @ Entity ''clothing'' ''hat'' # [Entity ''clothing'' ''bag''])
        pepper =
       (RTrue, pepper\<lparr>foi := (foi pepper)\<lparr>bag := Some True, hat := Some False\<rparr>\<rparr>)
   \<and> key_of (Entity ''line'' ''alpha line'') \<in> {''passages'', ''line'', ''clothing'', ''gender''}
   \<and> update (\<lambda>_. None)
        ([Entity ''negation'' ''not''] @ [Entity ''line'' ''alpha line'', Entity ''gender'' ''male''])
        pepper =
       (RTrue, pepper\<lparr>foi := (foi pepper)\<lparr>gender := Some ''male'',
          line1_passages := Some (Some 1, Some False)\<rparr>\<rparr>)
   \<and> gender (foi (pepper\<lparr>foi := (foi pepper)\<lparr>gender := Some ''male'',
          line1_passages := Some (Some 1, Some False)\<rparr>\<rparr>)) = Some ''male''"
proof -
  let ?w = "\<lambda>_::string. None::int option"
  let ?s1 = "pepper\<lparr>foi := (foi pepper)\<lparr>hat := Some False\<rparr>\<rparr>"
  let ?s2 = "pepper\<lparr>foi := (foi pepper)\<lparr>gender := Some ''male'',
          line1_passages := Some (Some 1, Some False)\<rparr>\<rparr>"
  have k1: "key_of (Entity ''clothing'' ''hat'') \<in> {''clothing'', ''gender''}"
    and k2: "key_of (Entity ''line'' ''alpha line'') \<in> {''passages'', ''line'', ''clothing'', ''gender''}"
    by simp_all
  have u: "update ?w ([Entity ''negation'' ''not''] @ [Entity ''clothing'' ''hat'']) pepper = (RTrue, ?s1)"
    by (simp add: loop_defs flush_defs string_tests)
  have g: "update ?w
        ([Entity ''negation'' ''not''] @ [Entity ''line'' ''alpha line'', Entity ''gender'' ''male''])
        pepper = (RTrue, ?s2)"
    by (simp add: loop_defs flush_defs string_tests pepper_def init_def LINE_1_def lower_def
        lower_char_def)
  have b: "update ?w [Entity ''clothing'' ''bag''] ?s1
     = (RTrue, pepper\<lparr>foi := (foi pepper)\<lparr>bag := Some True, hat := Some False\<rparr>\<rparr>)"
    by (simp add: loop_defs flush_defs string_tests)
  note n1 = negation_scope [of ?w "''not''" pepper "Entity ''clothing'' ''hat''"
        "[Entity ''negation'' ''not'']" ?s1 "[Entity ''clothing'' ''bag'']"]
  note n2 = negation_scope [of ?w "''not''" pepper "Entity ''line'' ''alpha line''"
        "[Entity ''negation'' ''not'']" pepper "[]" ?s2 "''male''"]
  have c3: "update ?w
      ([Entity ''negation'' ''not''] @ Entity ''clothing'' ''hat'' # [Entity ''clothing'' ''bag'']) pepper =
       (RTrue, pepper\<lparr>foi := (foi pepper)\<lparr>bag := Some True, hat := Some False\<rparr>\<rparr>)"
    using n1 [THEN conjunct2, THEN conjunct2, THEN conjunct1, THEN mp, OF k1, THEN mp, OF u]
    by (simp only: b)
  have c6: "gender (foi ?s2) = Some ''male''"
    by (rule n2 [THEN conjunct2, THEN conjunct2, THEN conjunct2, THEN mp, OF k2,
          THEN conjunct2, THEN conjunct2, THEN mp, OF g])
  from k1 u c3 k2 g c6 show ?thesis by (intro conjI)
qed

section \<open>Unknown line names\<close>































section \<open>A negation deferred into a line group\<close>

text \<open>
  C2. The claim is that a negation scopes exactly the clause that follows it. On the
  stream [line alpha line, negation, clothing hat] the code does otherwise: the negation
  is deferred into the open line group, the clothing entity flushes that group and
  clears it, the negation with it, and the hat is stored as \<^verbatim>\<open>True\<close>. The same negation
  counts when the line group is closed already: [passages twice, line alpha line,
  negation, clothing hat] stores \<^verbatim>\<open>False\<close>. The branch for line entities keeps a deferred
  negation across its flush: [line alpha line, negation, line beta line] stores
  (1, False) for the second line. A negation before a line group negates the group:
  [negation, passages twice, line alpha line] stores (2, False).
\<close>

theorem negation_lost_at_flush:
  "update w2n [Entity ''line'' ''alpha line'', Entity ''negation'' x, Entity ''clothing'' ''hat'']
      (pepper\<lparr>foi := f\<rparr>) =
     (RTrue, pepper\<lparr>foi := f\<lparr>line1_passages := Some (Some 1, Some True), hat := Some True\<rparr>\<rparr>)
   \<and> update w2n [Entity ''passages'' ''twice'', Entity ''line'' ''alpha line'',
        Entity ''negation'' x, Entity ''clothing'' ''hat''] (pepper\<lparr>foi := f\<rparr>) =
     (RTrue, pepper\<lparr>foi := f\<lparr>line1_passages := Some (Some 2, Some True), hat := Some False\<rparr>\<rparr>)
   \<and> update w2n [Entity ''line'' ''alpha line'', Entity ''negation'' x, Entity ''line'' ''beta line'']
      (pepper\<lparr>foi := f\<rparr>) =
     (RTrue, pepper\<lparr>foi := f\<lparr>line1_passages := Some (Some 1, Some True),
        line2_passages := Some (Some 1, Some False)\<rparr>\<rparr>)
   \<and> update w2n [Entity ''negation'' x, Entity ''passages'' ''twice'', Entity ''line'' ''alpha line'']
      (pepper\<lparr>foi := f\<rparr>) =
     (RTrue, pepper\<lparr>foi := f\<lparr>line1_passages := Some (Some 2, Some False)\<rparr>\<rparr>)"
proof -
  note ev = loop_defs flush_defs string_tests pepper_def init_def LINE_1_def LINE_2_def lower_def
    lower_char_def
  have 1: "update w2n [Entity ''line'' ''alpha line'', Entity ''negation'' x, Entity ''clothing'' ''hat'']
      (pepper\<lparr>foi := f\<rparr>) =
     (RTrue, pepper\<lparr>foi := f\<lparr>line1_passages := Some (Some 1, Some True), hat := Some True\<rparr>\<rparr>)"
    by (simp add: ev)
  have 2: "update w2n [Entity ''passages'' ''twice'', Entity ''line'' ''alpha line'',
        Entity ''negation'' x, Entity ''clothing'' ''hat''] (pepper\<lparr>foi := f\<rparr>) =
     (RTrue, pepper\<lparr>foi := f\<lparr>line1_passages := Some (Some 2, Some True), hat := Some False\<rparr>\<rparr>)"
    by (simp add: ev)
  have 3: "update w2n [Entity ''line'' ''alpha line'', Entity ''negation'' x, Entity ''line'' ''beta line'']
      (pepper\<lparr>foi := f\<rparr>) =
     (RTrue, pepper\<lparr>foi := f\<lparr>line1_passages := Some (Some 1, Some True),
        line2_passages := Some (Some 1, Some False)\<rparr>\<rparr>)"
    by (simp add: ev)
  have 4: "update w2n [Entity ''negation'' x, Entity ''passages'' ''twice'', Entity ''line'' ''alpha line'']
      (pepper\<lparr>foi := f\<rparr>) =
     (RTrue, pepper\<lparr>foi := f\<lparr>line1_passages := Some (Some 2, Some False)\<rparr>\<rparr>)"
    by (simp add: ev)
  from 1 2 3 4 show ?thesis by (intro conjI)
qed

end
